theory Spec2Isabelle
  imports Main "HOL-Library.Multiset" "HOL-Library.Sublist"
begin

section \<open>The task queue (ctpl::detail::Queue, ctpl\_stl.h lines 85--134)\<close>

text \<open>
  \<^verbatim>\<open>Queue<T>\<close> wraps a \<^verbatim>\<open>std::queue<T> q\<close> and a mutex. Every method takes the
  mutex for its whole body, so each call is one atomic action on the contents. The
  contents are modelled as a list whose head is the front of the queue.
  A method returns its \<^verbatim>\<open>bool\<close> together with the new contents; \<^verbatim>\<open>pop\<close> also
  returns the value of its reference parameter \<^verbatim>\<open>v\<close> (the output slot), which it
  receives as an argument.
\<close>

definition Queue_push :: "'a \<Rightarrow> 'a list \<Rightarrow> bool \<times> 'a list" where
  "Queue_push x q = (True, q @ [x])"

definition Queue_pop :: "'a \<Rightarrow> 'a list \<Rightarrow> bool \<times> 'a \<times> 'a list" where
  "Queue_pop v q =
     (if q = [] then (False, v, q)
      else (True, hd q, tl q))"

definition Queue_empty :: "'a list \<Rightarrow> bool" where
  "Queue_empty q = (q = [])"

text \<open>Pushing a sequence of elements, one call after the other.\<close>

fun pushes :: "'a list \<Rightarrow> 'a list \<Rightarrow> 'a list" where
  "pushes [] q = q"
| "pushes (p # ps) q = pushes ps (snd (Queue_push p q))"

text \<open>
  \<open>pops n v q\<close> calls \<^verbatim>\<open>pop\<close> \<open>n\<close> times in a row on the same output slot and
  collects, for every call, the returned flag and the slot's value after the call.
\<close>

fun pops :: "nat \<Rightarrow> 'a \<Rightarrow> 'a list \<Rightarrow> (bool \<times> 'a) list \<times> 'a list" where
  "pops 0 v q = ([], q)"
| "pops (Suc n) v q =
     (case Queue_pop v q of
        (b, v', q') \<Rightarrow> (case pops n v' q' of (rs, q'') \<Rightarrow> ((b, v') # rs, q'')))"



section \<open>The pool state (ctpl::thread\_pool, ctpl\_stl.h lines 143--521)\<close>

text \<open>
  Pointers and threads. A queue element is a \<^verbatim>\<open>std::function<void(int)> *\<close>:
  \<open>None\<close> is \<^verbatim>\<open>nullptr\<close> (also the value given to a local pointer the source
  leaves uninitialised), \<open>Some k\<close> points to the task object \<open>k\<close>. A stop flag is a
  \<^verbatim>\<open>std::atomic<bool>\<close> cell allocated by \<^verbatim>\<open>make_shared\<close>; cells live in
  \<open>heap\<close> and are named by their index, so that the pool's vector \<open>flags\<close> and the
  worker that captured the same \<^verbatim>\<open>shared_ptr\<close> share one cell. An operating-system
  thread is named by its index in \<open>workers\<close>, the list of the local states of all
  threads ever started by \<^verbatim>\<open>set_thread\<close>.
\<close>

type_synonym fptr = "nat option"
type_synonym addr = nat
type_synonym tid = nat

text \<open>A \<^verbatim>\<open>std::thread\<close> object: \<^verbatim>\<open>joinable()\<close> holds exactly in state \<open>Joinable\<close>.\<close>

datatype thread_state = Joinable | Detached | Joined

text \<open>
  What the C++ run time does where the program leaves the defined behaviour:
  an index outside a vector (with the index and the size), a null pointer dereferenced,
  \<^verbatim>\<open>std::system_error\<close> from \<^verbatim>\<open>join\<close> or \<^verbatim>\<open>detach\<close> on a thread that is not joinable,
  \<^verbatim>\<open>std::terminate\<close> from destroying a joinable thread, \<^verbatim>\<open>std::length_error\<close> from a
  vector resized to a negative \<^verbatim>\<open>int\<close> converted to \<^verbatim>\<open>size_t\<close>, and
  \<^verbatim>\<open>std::bad_function_call\<close> from calling an empty \<^verbatim>\<open>std::function\<close>.
\<close>

datatype error =
    OutOfBounds int nat
  | NullDeref
  | SystemError
  | Terminate
  | LengthError
  | BadFunctionCall

text \<open>
  The places of the worker lambda (lines 462--494) between two of its actions on
  shared state:
  \<open>W_Pop\<close> before \<^verbatim>\<open>isPop = this->q.pop(_f)\<close> (line 465 and line 476),
  \<open>W_Exec\<close> before \<^verbatim>\<open>(*_f)(i)\<close> (line 471),
  \<open>W_Check\<close> before \<^verbatim>\<open>if (_flag)\<close> (line 473),
  \<open>W_Lock\<close> before \<^verbatim>\<open>++this->nWaiting\<close> (lines 480--481),
  \<open>W_Wait\<close> inside \<^verbatim>\<open>cv.wait\<close> (lines 484--492),
  \<open>W_Retired\<close> after \<^verbatim>\<open>return\<close>, and \<open>W_Fault\<close> after a null \<^verbatim>\<open>_f\<close> was called.
\<close>

datatype wpc = W_Pop | W_Exec | W_Check | W_Lock | W_Wait | W_Retired | W_Fault

record worker =
  w_i :: int
  w_flag :: addr
  w_f :: fptr
  w_isPop :: bool
  w_pc :: wpc

text \<open>
  The places of the thread that calls \<^verbatim>\<open>stop\<close> (lines 301--334):
  \<open>C_Idle\<close> outside any call,
  \<open>C_Stop_Flags i n\<close> at the test of the loop of line 308,
  \<open>C_Stop_Clear1\<close> at the test of the loop of \<^verbatim>\<open>clear_queue\<close> called at line 311,
  \<open>C_Stop_Notify\<close> before the block of lines 318--322,
  \<open>C_Stop_Join i\<close> at the test of the loop of line 325,
  \<open>C_Stop_Clear2\<close> at the test of the loop of \<^verbatim>\<open>clear_queue\<close> called at line 331,
  \<open>C_Stop_Free\<close> before lines 332--333, and \<open>C_Fault e\<close> after the run-time
  failure \<open>e\<close>.
\<close>

datatype cpc =
    C_Idle
  | C_Stop_Flags int int
  | C_Stop_Clear1
  | C_Stop_Notify
  | C_Stop_Join int
  | C_Stop_Clear2
  | C_Stop_Free
  | C_Fault error

text \<open>
  The members of \<^verbatim>\<open>thread_pool\<close> (lines 512--520) keep their names; the mutex and the
  condition variable carry no data. \<open>heap\<close> and \<open>workers\<close> are the memory and the
  threads the members point to. \<open>executed\<close> records every call \<^verbatim>\<open>(*_f)(i)\<close> made by a
  worker (thread, argument \<open>i\<close>, task), \<open>discarded\<close> every \<^verbatim>\<open>delete _f\<close> of
  \<^verbatim>\<open>clear_queue\<close>, and \<open>ctl\<close> is the place of the thread that calls \<^verbatim>\<open>stop\<close>.
  A task is opaque: running it changes nothing of the pool but the record of the call.
  Sizes are taken to fit an \<^verbatim>\<open>int\<close>, so \<^verbatim>\<open>static_cast<int>\<close> of a size is exact and
  the \<^verbatim>\<open>int\<close> variables are modelled by unbounded integers.
\<close>

record thread_pool =
  threads :: "(tid \<times> thread_state) option list"
  flags :: "addr option list"
  q :: "fptr list"
  isDone :: bool
  isStop :: bool
  nWaiting :: int
  heap :: "bool list"
  workers :: "worker list"
  executed :: "(tid \<times> int \<times> nat) list"
  discarded :: "fptr list"
  ctl :: cpc

text \<open>\<^verbatim>\<open>thread_pool()\<close> with \<^verbatim>\<open>init()\<close> (lines 152 and 505--509): empty vectors and queue.\<close>

definition thread_pool_init :: thread_pool where
  "thread_pool_init =
     \<lparr>threads = [], flags = [], q = [], isDone = False, isStop = False, nWaiting = 0,
      heap = [], workers = [], executed = [], discarded = [], ctl = C_Idle\<rparr>"

text \<open>\<^verbatim>\<open>size()\<close> (line 178) and \<^verbatim>\<open>n_idle()\<close> (line 187).\<close>

definition size_pool :: "thread_pool \<Rightarrow> int" where
  "size_pool p = int (length (threads p))"

definition n_idle :: "thread_pool \<Rightarrow> int" where
  "n_idle p = nWaiting p"

text \<open>The value of the flag cell \<open>a\<close>.\<close>

definition flag_val :: "bool list \<Rightarrow> addr \<Rightarrow> bool" where
  "flag_val h a = (a < length h \<and> h ! a)"


section \<open>resize (lines 214--244)\<close>

text \<open>
  \<^verbatim>\<open>std::vector::resize(n)\<close> on a vector of smart pointers: the first \<open>n\<close> elements
  stay, missing ones are null. Destroying a \<^verbatim>\<open>unique_ptr<std::thread>\<close> destroys the
  thread object, which calls \<^verbatim>\<open>std::terminate\<close> when it is joinable.
\<close>

definition vec_resize :: "nat \<Rightarrow> 'a option list \<Rightarrow> 'a option list" where
  "vec_resize n xs = take n xs @ replicate (n - length xs) None"

definition thread_destroy_ok :: "(tid \<times> thread_state) option \<Rightarrow> bool" where
  "thread_destroy_ok x = (case x of None \<Rightarrow> True | Some (t, st) \<Rightarrow> st \<noteq> Joinable)"

text \<open>\<^verbatim>\<open>*this->flags[i] = true\<close> (lines 231 and 309).\<close>

definition set_flag :: "int \<Rightarrow> thread_pool \<Rightarrow> error + thread_pool" where
  "set_flag i p =
     (if \<not> (0 \<le> i \<and> i < int (length (flags p))) then Inl (OutOfBounds i (length (flags p)))
      else case flags p ! nat i of
        None \<Rightarrow> Inl NullDeref
      | Some a \<Rightarrow> Inr (p\<lparr>heap := (heap p)[a := True]\<rparr>))"

text \<open>\<^verbatim>\<open>this->threads[i]->detach()\<close> (line 232).\<close>

definition detach :: "int \<Rightarrow> thread_pool \<Rightarrow> error + thread_pool" where
  "detach i p =
     (if \<not> (0 \<le> i \<and> i < int (length (threads p))) then Inl (OutOfBounds i (length (threads p)))
      else case threads p ! nat i of
        None \<Rightarrow> Inl NullDeref
      | Some (t, st) \<Rightarrow>
          if st \<noteq> Joinable then Inl SystemError
          else Inr (p\<lparr>threads := (threads p)[nat i := Some (t, Detached)]\<rparr>))"

text \<open>
  \<^verbatim>\<open>this->flags[i] = std::make_shared<std::atomic<bool>>(false)\<close> (line 224): a new
  cell, holding false, at the end of the heap.
\<close>

definition store_flag :: "int \<Rightarrow> thread_pool \<Rightarrow> error + thread_pool" where
  "store_flag i p =
     (if \<not> (0 \<le> i \<and> i < int (length (flags p))) then Inl (OutOfBounds i (length (flags p)))
      else Inr (p\<lparr>heap := heap p @ [False],
                 flags := (flags p)[nat i := Some (length (heap p))]\<rparr>))"

text \<open>
  \<^verbatim>\<open>set_thread(i)\<close> (lines 457--498): copy \<^verbatim>\<open>flags[i]\<close>, start a thread running the
  worker lambda with the captured \<open>i\<close> and flag, and store it in \<^verbatim>\<open>threads[i]\<close>, whose
  old thread object is destroyed. The lambda dereferences the flag at once (line 463);
  a null flag is reported here.
\<close>

definition set_thread :: "int \<Rightarrow> thread_pool \<Rightarrow> error + thread_pool" where
  "set_thread i p =
     (if \<not> (0 \<le> i \<and> i < int (length (flags p))) then Inl (OutOfBounds i (length (flags p)))
      else case flags p ! nat i of
        None \<Rightarrow> Inl NullDeref
      | Some flag \<Rightarrow>
          if \<not> (0 \<le> i \<and> i < int (length (threads p)))
          then Inl (OutOfBounds i (length (threads p)))
          else if \<not> thread_destroy_ok (threads p ! nat i) then Inl Terminate
          else Inr (p\<lparr>workers := workers p @
                         [\<lparr>w_i = i, w_flag = flag, w_f = None, w_isPop = False, w_pc = W_Pop\<rparr>],
                       threads := (threads p)[nat i := Some (length (workers p), Joinable)]\<rparr>))"

text \<open>The loop of lines 223--226: \<^verbatim>\<open>for (int i = oldNThreads; i < nThreads; ++i)\<close>.\<close>

function grow_loop :: "int \<Rightarrow> int \<Rightarrow> thread_pool \<Rightarrow> error + thread_pool" where
  "grow_loop i nThreads p =
     (if i < nThreads then
        (case store_flag i p of
           Inl e \<Rightarrow> Inl e
         | Inr p1 \<Rightarrow>
             (case set_thread i p1 of
                Inl e \<Rightarrow> Inl e
              | Inr p2 \<Rightarrow> grow_loop (i + 1) nThreads p2))
      else Inr p)"
  by pat_completeness auto
termination
  by (relation "measure (\<lambda>(i, n, p). nat (n - i))") auto

text \<open>The loop of lines 230--233: \<^verbatim>\<open>for (int i = oldNThreads - 1; i >= nThreads; --i)\<close>.\<close>

function shrink_loop :: "int \<Rightarrow> int \<Rightarrow> thread_pool \<Rightarrow> error + thread_pool" where
  "shrink_loop i nThreads p =
     (if i \<ge> nThreads then
        (case set_flag i p of
           Inl e \<Rightarrow> Inl e
         | Inr p1 \<Rightarrow>
             (case detach i p1 of
                Inl e \<Rightarrow> Inl e
              | Inr p2 \<Rightarrow> shrink_loop (i - 1) nThreads p2))
      else Inr p)"
  by pat_completeness auto
termination
  by (relation "measure (\<lambda>(i, n, p). nat (i + 1 - n))") auto

declare grow_loop.simps [simp del]
declare shrink_loop.simps [simp del]

text \<open>
  \<^verbatim>\<open>resize(nThreads)\<close>. The \<^verbatim>\<open>notify_all\<close> of lines 234--238 changes no data: a
  waiting worker may evaluate its predicate at any time (see \<open>worker_step\<close>).
\<close>

definition resize :: "int \<Rightarrow> thread_pool \<Rightarrow> error + thread_pool" where
  "resize nThreads p =
     (if \<not> isStop p \<and> \<not> isDone p then
        (let oldNThreads = int (length (threads p)) in
         if oldNThreads \<le> nThreads then
           grow_loop oldNThreads nThreads
             (p\<lparr>threads := vec_resize (nat nThreads) (threads p),
                flags := vec_resize (nat nThreads) (flags p)\<rparr>)
         else
           (case shrink_loop (oldNThreads - 1) nThreads p of
              Inl e \<Rightarrow> Inl e
            | Inr p1 \<Rightarrow>
                if nThreads < 0 then Inl LengthError
                else if \<not> list_all thread_destroy_ok (drop (nat nThreads) (threads p1))
                then Inl Terminate
                else Inr (p1\<lparr>threads := vec_resize (nat nThreads) (threads p1),
                            flags := vec_resize (nat nThreads) (flags p1)\<rparr>)))
      else Inr p)"


section \<open>push and pop of the pool (lines 273--282 and 359--424)\<close>

text \<open>
  Both overloads of \<^verbatim>\<open>push\<close> allocate the task object, here \<open>k\<close>, push its address
  and call \<^verbatim>\<open>notify_one\<close>; the future they return is not modelled.
\<close>

definition push :: "nat \<Rightarrow> thread_pool \<Rightarrow> thread_pool" where
  "push k p = p\<lparr>q := snd (Queue_push (Some k) (q p))\<rparr>"

text \<open>
  A value of type \<^verbatim>\<open>std::function<void(int)>\<close> is empty or holds a copy of the target
  of a task; \<^verbatim>\<open>operator()\<close> on an empty one throws \<^verbatim>\<open>std::bad_function_call\<close>, on a
  copy of task \<open>k\<close> it runs the task with the given argument.
\<close>

datatype func = EmptyFunction | CopyOf nat

definition function_call :: "func \<Rightarrow> int \<Rightarrow> error + (int \<times> nat)" where
  "function_call f i = (case f of EmptyFunction \<Rightarrow> Inl BadFunctionCall | CopyOf k \<Rightarrow> Inr (i, k))"

definition function_bool :: "func \<Rightarrow> bool" where
  "function_bool f = (f \<noteq> EmptyFunction)"

text \<open>
  \<^verbatim>\<open>thread_pool::pop()\<close>: \<^verbatim>\<open>_f\<close> starts as \<^verbatim>\<open>nullptr\<close>, the result of
  \<^verbatim>\<open>q.pop(_f)\<close> is ignored, and \<^verbatim>\<open>f\<close> is assigned only when \<^verbatim>\<open>_f\<close> is not null.
\<close>

definition thread_pool_pop :: "thread_pool \<Rightarrow> func \<times> thread_pool" where
  "thread_pool_pop p =
     (case Queue_pop None (q p) of
        (b, f', q') \<Rightarrow>
          ((case f' of None \<Rightarrow> EmptyFunction | Some k \<Rightarrow> CopyOf k), p\<lparr>q := q'\<rparr>))"


section \<open>The worker (lines 462--494)\<close>

text \<open>
  One action of thread \<open>t\<close>. The condition variable is modelled by its contract: a
  thread inside \<^verbatim>\<open>cv.wait(lock, pred)\<close> evaluates \<open>pred\<close> when notified or spuriously,
  that is at any time, and leaves the wait when \<open>pred\<close> is true. The predicate of line
  484 pops first, and reads \<^verbatim>\<open>isDone\<close> and the flag only when the pop failed; it runs
  under \<^verbatim>\<open>this->mutex\<close> and is one action here, together with lines 489--492 that
  follow a true predicate. The mutex itself only excludes interleavings, so leaving it
  out lets the model do everything the program can do.
\<close>

definition worker_step :: "tid \<Rightarrow> thread_pool \<Rightarrow> thread_pool" where
  "worker_step t p =
     (if t < length (workers p) then
        (let w = workers p ! t in
         case w_pc w of
           W_Pop \<Rightarrow>
             (case Queue_pop (w_f w) (q p) of
                (b, f', q') \<Rightarrow>
                  p\<lparr>q := q',
                    workers := (workers p)[t := w\<lparr>w_f := f', w_isPop := b,
                                                   w_pc := (if b then W_Exec else W_Lock)\<rparr>]\<rparr>)
         | W_Exec \<Rightarrow>
             (case w_f w of
                None \<Rightarrow> p\<lparr>workers := (workers p)[t := w\<lparr>w_pc := W_Fault\<rparr>]\<rparr>
              | Some k \<Rightarrow>
                  p\<lparr>executed := executed p @ [(t, w_i w, k)],
                    workers := (workers p)[t := w\<lparr>w_pc := W_Check\<rparr>]\<rparr>)
         | W_Check \<Rightarrow>
             (if flag_val (heap p) (w_flag w)
              then p\<lparr>workers := (workers p)[t := w\<lparr>w_pc := W_Retired\<rparr>]\<rparr>
              else p\<lparr>workers := (workers p)[t := w\<lparr>w_pc := W_Pop\<rparr>]\<rparr>)
         | W_Lock \<Rightarrow>
             p\<lparr>nWaiting := nWaiting p + 1,
               workers := (workers p)[t := w\<lparr>w_pc := W_Wait\<rparr>]\<rparr>
         | W_Wait \<Rightarrow>
             (case Queue_pop (w_f w) (q p) of
                (b, f', q') \<Rightarrow>
                  if b \<or> isDone p \<or> flag_val (heap p) (w_flag w) then
                    p\<lparr>q := q', nWaiting := nWaiting p - 1,
                      workers := (workers p)[t := w\<lparr>w_f := f', w_isPop := b,
                                                     w_pc := (if \<not> b then W_Retired else W_Exec)\<rparr>]\<rparr>
                  else
                    p\<lparr>q := q',
                      workers := (workers p)[t := w\<lparr>w_f := f', w_isPop := b\<rparr>]\<rparr>)
         | W_Retired \<Rightarrow> p
         | W_Fault \<Rightarrow> p)
      else p)"


section \<open>stop (lines 301--334) and the destructor (lines 169--171)\<close>

text \<open>
  Entering \<^verbatim>\<open>stop(isWait)\<close>: lines 302--306 and 313--317. A call that finds the pool
  stopped returns at once and the caller stays at \<open>C_Idle\<close>.
\<close>

definition stop_call :: "bool \<Rightarrow> thread_pool \<Rightarrow> thread_pool" where
  "stop_call isWait p =
     (if \<not> isWait then
        (if isStop p then p
         else p\<lparr>isStop := True, ctl := C_Stop_Flags 0 (size_pool p)\<rparr>)
      else
        (if isDone p \<or> isStop p then p
         else p\<lparr>isDone := True, ctl := C_Stop_Notify\<rparr>))"

text \<open>One test of the loop of \<^verbatim>\<open>clear_queue\<close> (lines 256--260), with its body when it passes.\<close>

definition clear_queue_iter :: "thread_pool \<Rightarrow> bool \<times> thread_pool" where
  "clear_queue_iter p =
     (case Queue_pop None (q p) of
        (b, f', q') \<Rightarrow>
          if b then (True, p\<lparr>q := q', discarded := discarded p @ [f']\<rparr>)
          else (False, p))"

text \<open>
  One action of the thread inside \<^verbatim>\<open>stop\<close>. \<^verbatim>\<open>join\<close> returns when the thread has
  returned from the worker lambda; until then the caller stays where it is.
\<close>

definition ctrl_step :: "thread_pool \<Rightarrow> thread_pool" where
  "ctrl_step p =
     (case ctl p of
        C_Idle \<Rightarrow> p
      | C_Stop_Flags i n \<Rightarrow>
          (if i < n then
             (case set_flag i p of
                Inl e \<Rightarrow> p\<lparr>ctl := C_Fault e\<rparr>
              | Inr p1 \<Rightarrow> p1\<lparr>ctl := C_Stop_Flags (i + 1) n\<rparr>)
           else p\<lparr>ctl := C_Stop_Clear1\<rparr>)
      | C_Stop_Clear1 \<Rightarrow>
          (case clear_queue_iter p of
             (b, p1) \<Rightarrow> if b then p1 else p1\<lparr>ctl := C_Stop_Notify\<rparr>)
      | C_Stop_Notify \<Rightarrow> p\<lparr>ctl := C_Stop_Join 0\<rparr>
      | C_Stop_Join i \<Rightarrow>
          (if i < int (length (threads p)) then
             (if i < 0 then p\<lparr>ctl := C_Fault (OutOfBounds i (length (threads p)))\<rparr>
              else case threads p ! nat i of
                None \<Rightarrow> p\<lparr>ctl := C_Fault NullDeref\<rparr>
              | Some (t, st) \<Rightarrow>
                  if st = Joinable then
                    (if t < length (workers p) \<and> w_pc (workers p ! t) = W_Retired
                     then p\<lparr>threads := (threads p)[nat i := Some (t, Joined)],
                            ctl := C_Stop_Join (i + 1)\<rparr>
                     else p)
                  else p\<lparr>ctl := C_Stop_Join (i + 1)\<rparr>)
           else p\<lparr>ctl := C_Stop_Clear2\<rparr>)
      | C_Stop_Clear2 \<Rightarrow>
          (case clear_queue_iter p of
             (b, p1) \<Rightarrow> if b then p1 else p1\<lparr>ctl := C_Stop_Free\<rparr>)
      | C_Stop_Free \<Rightarrow>
          (if \<not> list_all thread_destroy_ok (threads p) then p\<lparr>ctl := C_Fault Terminate\<rparr>
           else p\<lparr>threads := [], flags := [], ctl := C_Idle\<rparr>)
      | C_Fault e \<Rightarrow> p)"

text \<open>
  What can happen to a pool: a worker or the thread inside \<^verbatim>\<open>stop\<close> does its next
  action, or a client calls a member function. \<^verbatim>\<open>resize\<close> and \<^verbatim>\<open>stop\<close> are called
  from one thread, so a call waits until the previous one has returned.
\<close>

datatype event = Work tid | Ctrl | Resize int | Stop bool | Push nat | Pop

definition step :: "event \<Rightarrow> thread_pool \<Rightarrow> thread_pool" where
  "step e p =
     (case e of
        Work t \<Rightarrow> worker_step t p
      | Ctrl \<Rightarrow> ctrl_step p
      | Resize n \<Rightarrow>
          (if ctl p = C_Idle
           then (case resize n p of Inl e \<Rightarrow> p\<lparr>ctl := C_Fault e\<rparr> | Inr p' \<Rightarrow> p')
           else p)
      | Stop isWait \<Rightarrow> (if ctl p = C_Idle then stop_call isWait p else p)
      | Push k \<Rightarrow> push k p
      | Pop \<Rightarrow> snd (thread_pool_pop p))"

fun run :: "event list \<Rightarrow> thread_pool \<Rightarrow> thread_pool" where
  "run [] p = p"
| "run (e # es) p = run es (step e p)"

text \<open>The events of the pool's own threads: no client calls a member function.\<close>

fun internal :: "event \<Rightarrow> bool" where
  "internal (Work t) = True"
| "internal Ctrl = True"
| "internal e = False"

text \<open>
  \<^verbatim>\<open>stop(isWait)\<close> under the schedule \<open>sched\<close> of the pool's threads; the call has
  returned in the result when its \<open>ctl\<close> is \<open>C_Idle\<close>. The destructor is
  \<^verbatim>\<open>this->stop(true)\<close>.
\<close>

definition stop :: "bool \<Rightarrow> event list \<Rightarrow> thread_pool \<Rightarrow> thread_pool" where
  "stop isWait sched p = run sched (stop_call isWait p)"

definition thread_pool_dtor :: "event list \<Rightarrow> thread_pool \<Rightarrow> thread_pool" where
  "thread_pool_dtor sched p = stop True sched p"

text \<open>
  The states a pool can be in: from the constructor, by events whose \<^verbatim>\<open>resize\<close>
  arguments are not negative (the documented precondition, line 202).
\<close>

fun admissible :: "event \<Rightarrow> bool" where
  "admissible (Resize n) = (0 \<le> n)"
| "admissible e = True"

inductive reachable :: "thread_pool \<Rightarrow> bool" where
  reachable_init: "reachable thread_pool_init"
| reachable_step: "reachable p \<Longrightarrow> admissible e \<Longrightarrow> reachable (step e p)"


section \<open>Auxiliary notions for the proofs\<close>

text \<open>
  What \<^verbatim>\<open>resize\<close> leaves alone: the queue, the counters and the records are kept,
  a flag that is set stays set, and the threads that exist keep their local state.
\<close>

definition resize_frame :: "thread_pool \<Rightarrow> thread_pool \<Rightarrow> bool" where
  "resize_frame p p' =
     (q p' = q p \<and> isDone p' = isDone p \<and> isStop p' = isStop p \<and> nWaiting p' = nWaiting p
      \<and> executed p' = executed p \<and> discarded p' = discarded p \<and> ctl p' = ctl p
      \<and> length (heap p) \<le> length (heap p')
      \<and> (\<forall>a. flag_val (heap p) a \<longrightarrow> flag_val (heap p') a)
      \<and> take (length (workers p)) (workers p') = workers p)"


text \<open>
  Thread \<open>t\<close> has run a task and has its flag set: it is about to test the flag, or
  it has returned.
\<close>

definition retiring :: "tid \<Rightarrow> thread_pool \<Rightarrow> bool" where
  "retiring t p =
     (t < length (workers p)
      \<and> (w_pc (workers p ! t) = W_Check \<or> w_pc (workers p ! t) = W_Retired)
      \<and> flag_val (heap p) (w_flag (workers p ! t)))"


text \<open>
  The invariant of the pool's vectors. Slot \<open>i\<close> holds a thread and a flag cell, the
  thread runs the worker that captured that cell, and the thread object is joinable,
  except that inside \<^verbatim>\<open>stop\<close> the threads before the index of the join loop, and all
  of them after the loop, have been joined.
\<close>

fun st_ok :: "cpc \<Rightarrow> nat \<Rightarrow> thread_state \<Rightarrow> bool" where
  "st_ok (C_Stop_Join j) i st = (if int i < j then st = Joined else st = Joinable)"
| "st_ok C_Stop_Clear2 i st = (st = Joined)"
| "st_ok C_Stop_Free i st = (st = Joined)"
| "st_ok (C_Fault e) i st = False"
| "st_ok c i st = (st = Joinable)"

definition slot_ok :: "thread_pool \<Rightarrow> nat \<Rightarrow> bool" where
  "slot_ok p i =
     (\<exists>t st a. threads p ! i = Some (t, st) \<and> flags p ! i = Some a \<and> st_ok (ctl p) i st
        \<and> a < length (heap p) \<and> t < length (workers p) \<and> w_flag (workers p ! t) = a)"

fun ctl_ok :: "thread_pool \<Rightarrow> cpc \<Rightarrow> bool" where
  "ctl_ok p C_Idle = (isStop p \<or> isDone p \<longrightarrow> threads p = [])"
| "ctl_ok p (C_Stop_Flags i n) = (0 \<le> i \<and> n = int (length (threads p)) \<and> isStop p)"
| "ctl_ok p (C_Stop_Join j) = (0 \<le> j \<and> (isStop p \<or> isDone p))"
| "ctl_ok p (C_Fault e) = False"
| "ctl_ok p c = (isStop p \<or> isDone p)"

definition pool_inv :: "thread_pool \<Rightarrow> bool" where
  "pool_inv p =
     (length (flags p) = length (threads p)
      \<and> (\<forall>i < length (threads p). slot_ok p i)
      \<and> ctl_ok p (ctl p))"

text \<open>The invariants of the two loops of \<^verbatim>\<open>resize\<close>, at the test with index \<open>i\<close>.\<close>

definition grow_inv :: "int \<Rightarrow> int \<Rightarrow> thread_pool \<Rightarrow> bool" where
  "grow_inv i n s =
     (0 \<le> i \<and> i \<le> n \<and> ctl s = C_Idle
      \<and> length (threads s) = nat n \<and> length (flags s) = nat n
      \<and> (\<forall>j < nat i. slot_ok s j)
      \<and> (\<forall>j. nat i \<le> j \<and> j < nat n \<longrightarrow> threads s ! j = None))"

definition shrink_inv :: "int \<Rightarrow> thread_pool \<Rightarrow> bool" where
  "shrink_inv i s =
     (- 1 \<le> i \<and> i < int (length (threads s)) \<and> ctl s = C_Idle
      \<and> length (flags s) = length (threads s)
      \<and> (\<forall>j. int j \<le> i \<longrightarrow> slot_ok s j)
      \<and> (\<forall>j. i < int j \<and> j < length (threads s) \<longrightarrow>
            (\<exists>t a. threads s ! j = Some (t, Detached) \<and> flags s ! j = Some a
               \<and> flag_val (heap s) a)))"


text \<open>
  Where the task pointers are: in the queue, in the hands of a worker that has popped
  one and not yet finished the call (or has faulted on it), in the record of the calls
  made, or in the record of the pointers deleted by \<^verbatim>\<open>clear_queue\<close>.
\<close>

definition held :: "worker \<Rightarrow> fptr multiset" where
  "held w = (if w_pc w = W_Exec \<or> w_pc w = W_Fault then {#w_f w#} else {#})"

definition called :: "thread_pool \<Rightarrow> fptr multiset" where
  "called p = mset (map (\<lambda>x. Some (snd (snd x))) (executed p))"

definition all_tasks :: "thread_pool \<Rightarrow> fptr multiset" where
  "all_tasks p =
     mset (q p) + sum_list (map held (workers p)) + called p + mset (discarded p)"

text \<open>
  The invariant of \<^verbatim>\<open>stop(false)\<close> on a pool whose flag vector was \<open>F\<close> at the call:
  the cells of the slots the loop of line 308 has passed hold true, and once the second
  \<^verbatim>\<open>clear_queue\<close> has found the queue empty it stays empty.
\<close>

definition flags_set :: "addr option list \<Rightarrow> nat \<Rightarrow> thread_pool \<Rightarrow> bool" where
  "flags_set F m s = (\<forall>j. j < m \<and> j < length F \<longrightarrow> (\<exists>a. F ! j = Some a \<and> flag_val (heap s) a))"

fun stop_inv :: "addr option list \<Rightarrow> thread_pool \<Rightarrow> cpc \<Rightarrow> bool" where
  "stop_inv F s (C_Stop_Flags i n) =
     (flags s = F \<and> 0 \<le> i \<and> n = int (length F) \<and> flags_set F (nat i) s)"
| "stop_inv F s C_Stop_Free = (flags s = F \<and> flags_set F (length F) s \<and> q s = [])"
| "stop_inv F s C_Idle =
     (flags_set F (length F) s \<and> q s = [] \<and> threads s = [] \<and> flags s = [])"
| "stop_inv F s (C_Fault e) = True"
| "stop_inv F s c = (flags s = F \<and> flags_set F (length F) s)"


text \<open>
  The invariant of the join loop of \<^verbatim>\<open>stop\<close> on a pool whose threads were \<open>T\<close> at
  the call: the threads in the vector are still those, the workers of the slots the loop
  of line 325 has passed have returned, and after the loop all of them have.
\<close>

definition tids :: "thread_pool \<Rightarrow> tid option list" where
  "tids s = map (map_option fst) (threads s)"

definition retired_upto :: "tid option list \<Rightarrow> nat \<Rightarrow> thread_pool \<Rightarrow> bool" where
  "retired_upto T m s =
     (\<forall>j. j < m \<and> j < length T \<longrightarrow>
        (\<exists>t. T ! j = Some t \<and> t < length (workers s) \<and> w_pc (workers s ! t) = W_Retired))"

fun join_inv :: "tid option list \<Rightarrow> thread_pool \<Rightarrow> cpc \<Rightarrow> bool" where
  "join_inv T s (C_Stop_Join i) = (tids s = T \<and> retired_upto T (nat i) s)"
| "join_inv T s C_Stop_Clear2 = (tids s = T \<and> retired_upto T (length T) s)"
| "join_inv T s C_Stop_Free = (tids s = T \<and> retired_upto T (length T) s)"
| "join_inv T s C_Idle = retired_upto T (length T) s"
| "join_inv T s (C_Fault e) = True"
| "join_inv T s c = (tids s = T)"


text \<open>
  Two more invariants of the states a pool can reach. The queue holds no null pointer
  and a worker about to call a task holds a pointer that is not null, so no worker
  faults. And in a running pool the slots have flag cells of their own, all holding
  false, and workers that have not returned; \<open>live m\<close> says so of the slots below \<open>m\<close>.
\<close>

definition wk_ok :: "worker \<Rightarrow> bool" where
  "wk_ok w = ((w_pc w = W_Exec \<longrightarrow> w_f w \<noteq> None) \<and> w_pc w \<noteq> W_Fault)"

definition tasks_ok :: "thread_pool \<Rightarrow> bool" where
  "tasks_ok p = (None \<notin> set (q p) \<and> list_all wk_ok (workers p))"

definition live :: "nat \<Rightarrow> thread_pool \<Rightarrow> bool" where
  "live m p =
     ((\<forall>i j a. i < m \<and> j < m \<and> flags p ! i = Some a \<and> flags p ! j = Some a \<longrightarrow> i = j)
      \<and> (\<forall>i a. i < m \<and> flags p ! i = Some a \<longrightarrow> \<not> flag_val (heap p) a)
      \<and> (\<forall>i t st. i < m \<and> threads p ! i = Some (t, st) \<longrightarrow>
            w_pc (workers p ! t) \<noteq> W_Retired))"

definition run_inv :: "thread_pool \<Rightarrow> bool" where
  "run_inv p = (\<not> isStop p \<and> \<not> isDone p \<longrightarrow> live (length (threads p)) p)"


text \<open>
  The invariant of \<^verbatim>\<open>stop(true)\<close> called in state \<open>p\<close>: no flag changes; a thread that
  is not in the pool's vector stays returned if it was; as long as the queue holds a
  task no worker of the vector has returned; with a worker in the vector
  \<^verbatim>\<open>clear_queue\<close> deletes nothing; and after the second \<^verbatim>\<open>clear_queue\<close> the queue is
  empty.
\<close>

definition drain_inv :: "thread_pool \<Rightarrow> thread_pool \<Rightarrow> bool" where
  "drain_inv p s =
     (isDone s \<and> heap s = heap p \<and> length (workers s) = length (workers p)
      \<and> (\<forall>t. w_flag (workers s ! t) = w_flag (workers p ! t))
      \<and> (\<forall>t < length (workers p). Some t \<notin> set (tids p) \<longrightarrow>
            w_pc (workers s ! t) = W_Retired)
      \<and> (q s = [] \<or> (\<forall>t. Some t \<in> set (tids p) \<longrightarrow> w_pc (workers s ! t) \<noteq> W_Retired))
      \<and> (threads p \<noteq> [] \<longrightarrow> discarded s = discarded p)
      \<and> (case ctl s of
            C_Stop_Flags i n \<Rightarrow> False
          | C_Stop_Clear1 \<Rightarrow> False
          | C_Stop_Free \<Rightarrow> q s = []
          | C_Idle \<Rightarrow> q s = []
          | _ \<Rightarrow> True))"

text \<open>The workers of the vector of \<open>p\<close> have their flags unset.\<close>

definition managed_unset :: "thread_pool \<Rightarrow> bool" where
  "managed_unset p =
     (\<forall>t. Some t \<in> set (tids p) \<longrightarrow>
        t < length (workers p) \<and> \<not> flag_val (heap p) (w_flag (workers p ! t))
        \<and> w_pc (workers p ! t) \<noteq> W_Retired)"


text \<open>
  A measure of the work left inside \<^verbatim>\<open>stop\<close>: the tasks still queued, how far each
  worker is from returning, and how far the calling thread is from the end of
  \<^verbatim>\<open>stop\<close>. \<open>can_finish\<close> collects what lets some thread always reduce it: the
  invariant of the vectors, no faulting worker, and the pool draining or, inside
  \<^verbatim>\<open>stop(false)\<close>, the flags set as far as the loop of line 308 has come.
\<close>

fun wrank :: "wpc \<Rightarrow> nat" where
  "wrank W_Exec = 5"
| "wrank W_Check = 4"
| "wrank W_Pop = 3"
| "wrank W_Lock = 2"
| "wrank W_Wait = 1"
| "wrank W_Retired = 0"
| "wrank W_Fault = 0"

fun crank_of :: "cpc \<Rightarrow> nat \<Rightarrow> nat" where
  "crank_of C_Idle m = 0"
| "crank_of C_Stop_Free m = 1"
| "crank_of C_Stop_Clear2 m = 2"
| "crank_of (C_Stop_Join i) m = 3 + (m - nat i)"
| "crank_of C_Stop_Notify m = 4 + m"
| "crank_of C_Stop_Clear1 m = 5 + m"
| "crank_of (C_Stop_Flags i n) m = 6 + m + nat (n - i)"
| "crank_of (C_Fault e) m = 0"

definition crank :: "thread_pool \<Rightarrow> nat" where
  "crank s = crank_of (ctl s) (length (threads s))"

definition mu :: "thread_pool \<Rightarrow> nat" where
  "mu s = 5 * length (q s) + sum_list (map (\<lambda>w. wrank (w_pc w)) (workers s)) + crank s"

definition can_finish :: "thread_pool \<Rightarrow> bool" where
  "can_finish s = (pool_inv s \<and> tasks_ok s \<and> (isDone s \<or> (\<exists>F. stop_inv F s (ctl s))))"


section \<open>Properties of the queue\<close>

lemma pushes_append: "pushes ps q0 = q0 @ ps"
  by (induction ps arbitrary: q0) (simp_all add: Queue_push_def)

lemma pops_prefix: "pops (length xs) v (xs @ ys) = (map (Pair True) xs, ys)"
  by (induction xs arbitrary: v) (simp_all add: Queue_pop_def)

text \<open>
  Claim C1. The queue is first-in first-out. After the elements \<open>ps\<close> have been pushed
  on a queue holding \<open>q0\<close>, as many pops as there are elements succeed and return the
  old contents and then \<open>ps\<close>, in the order of the pushes, and leave the queue empty;
  stopping after the first \<open>length xs\<close> pops of the pushed sequence \<open>xs @ ys\<close>
  returns \<open>xs\<close> and leaves \<open>ys\<close>; and one pop on a queue with front \<open>x\<close> returns
  \<open>x\<close> and removes exactly that element.
\<close>

theorem Queue_fifo:
  "pops (length (q0 @ ps)) v (pushes ps q0) = (map (Pair True) (q0 @ ps), [])
   \<and> pops (length ps) v (pushes ps []) = (map (Pair True) ps, [])
   \<and> pops (length xs) v (pushes (xs @ ys) []) = (map (Pair True) xs, ys)
   \<and> Queue_pop v (x # r) = (True, x, r)"
proof -
  have a: "pops (length (q0 @ ps)) v (pushes ps q0) = (map (Pair True) (q0 @ ps), [])"
    using pops_prefix [of "q0 @ ps" v "[]"] by (simp add: pushes_append)
  have b: "pops (length ps) v (pushes ps []) = (map (Pair True) ps, [])"
    using pops_prefix [of ps v "[]"] by (simp add: pushes_append)
  have c: "pops (length xs) v (pushes (xs @ ys) []) = (map (Pair True) xs, ys)"
    using pops_prefix [of xs v ys] by (simp add: pushes_append)
  have d: "Queue_pop v (x # r) = (True, x, r)"
    by (simp add: Queue_pop_def)
  from a b c d show ?thesis by blast
qed

text \<open>
  Claim C9. A pop on the empty queue returns false at once, leaves the queue empty and
  leaves the output slot as it was; a push returns true whatever the queue holds, and
  appends the element.
\<close>

theorem Queue_pop_empty_push_true:
  "Queue_pop v [] = (False, v, [])
   \<and> fst (Queue_push x q0) = True
   \<and> snd (Queue_push x q0) = q0 @ [x]"
  by (simp add: Queue_pop_def Queue_push_def)

section \<open>Properties of resize and pop\<close>

text \<open>
  Claim C6. On a pool that is draining (\<open>isDone\<close>) or stopped (\<open>isStop\<close>),
  \<^verbatim>\<open>resize(n)\<close> returns without error and returns the pool it was given: the vectors,
  the flags, the queue and the counters are what they were, for every \<open>n\<close>.
\<close>

theorem resize_noop_when_stopped:
  "isStop p \<or> isDone p \<Longrightarrow> resize n p = Inr p \<and> step (Resize n) p = p"
  by (auto simp: resize_def step_def)

theorem resize_noop_when_stopped_witness:
  "isDone (run [Resize 2, Push 7, Stop True] thread_pool_init)
   \<and> resize 5 (run [Resize 2, Push 7, Stop True] thread_pool_init)
       = Inr (run [Resize 2, Push 7, Stop True] thread_pool_init)
   \<and> threads (run [Resize 2, Push 7, Stop True] thread_pool_init)
       = [Some (0, Joinable), Some (1, Joinable)]"
proof -
  have h: "isDone (run [Resize 2, Push 7, Stop True] thread_pool_init)"
    by code_simp
  have t: "threads (run [Resize 2, Push 7, Stop True] thread_pool_init)
             = [Some (0, Joinable), Some (1, Joinable)]"
    by code_simp
  from resize_noop_when_stopped [OF disjI2 [OF h], of 5] h t show ?thesis
    by blast
qed

text \<open>
  Claim C8, as the code has it. On an empty queue \<^verbatim>\<open>thread_pool::pop()\<close> returns at
  once the empty \<^verbatim>\<open>std::function\<close> and the pool unchanged; the result converts to
  false, and calling it is not a no-op: it throws \<^verbatim>\<open>std::bad_function_call\<close>.
\<close>

theorem pop_empty_returns_empty_function:
  "q p = [] \<Longrightarrow>
     thread_pool_pop p = (EmptyFunction, p)
     \<and> \<not> function_bool (fst (thread_pool_pop p))
     \<and> function_call (fst (thread_pool_pop p)) i = Inl BadFunctionCall"
  by (simp add: thread_pool_pop_def Queue_pop_def function_call_def function_bool_def)

theorem pop_empty_returns_empty_function_witness:
  "q (run [Resize 1, Work 0] thread_pool_init) = []
   \<and> thread_pool_pop (run [Resize 1, Work 0] thread_pool_init)
      = (EmptyFunction, run [Resize 1, Work 0] thread_pool_init)
   \<and> function_call (fst (thread_pool_pop (run [Resize 1, Work 0] thread_pool_init))) 3
      = Inl BadFunctionCall"
proof -
  have h: "q (run [Resize 1, Work 0] thread_pool_init) = []"
    by code_simp
  from pop_empty_returns_empty_function [OF h, of 3] h show ?thesis
    by blast
qed

text \<open>
  Claim C8 as stated fails: the callable popped from the empty queue of a new pool
  cannot be invoked as a no-op, the call throws.
\<close>

theorem pop_empty_call_counterexample:
  "q thread_pool_init = [] \<and>
   function_call (fst (thread_pool_pop thread_pool_init)) 0 = Inl BadFunctionCall"
  by (simp add: thread_pool_init_def thread_pool_pop_def Queue_pop_def function_call_def)

section \<open>Frame lemmas\<close>

lemma resize_frame_refl: "resize_frame p p"
  by (simp add: resize_frame_def)

lemma resize_frame_trans: "resize_frame p p1 \<Longrightarrow> resize_frame p1 p2 \<Longrightarrow> resize_frame p p2"
  unfolding resize_frame_def
  apply (intro conjI)
  apply simp_all
  apply (metis (no_types, lifting) append_eq_conv_conj append_take_drop_id length_take take_take)
  done

lemma flag_val_update: "flag_val h a \<Longrightarrow> flag_val (h[b := True]) a"
  by (cases "a = b") (simp_all add: flag_val_def)

lemma flag_val_append: "flag_val h a \<Longrightarrow> flag_val (h @ xs) a"
  by (simp add: flag_val_def nth_append)

lemma set_flag_frame: "set_flag i p = Inr p' \<Longrightarrow> resize_frame p p'"
  by (auto simp: set_flag_def resize_frame_def flag_val_update split: if_splits option.splits)

lemma detach_frame: "detach i p = Inr p' \<Longrightarrow> resize_frame p p'"
  by (auto simp: detach_def resize_frame_def split: if_splits option.splits)

lemma store_flag_frame: "store_flag i p = Inr p' \<Longrightarrow> resize_frame p p'"
  by (auto simp: store_flag_def resize_frame_def flag_val_append split: if_splits option.splits)

lemma set_thread_frame: "set_thread i p = Inr p' \<Longrightarrow> resize_frame p p'"
  by (auto simp: set_thread_def resize_frame_def split: if_splits option.splits)

lemma grow_loop_frame: "grow_loop i n p = Inr p' \<Longrightarrow> resize_frame p p'"
proof (induction i n p rule: grow_loop.induct)
  case (1 i n p)
  show ?case
  proof (cases "i < n")
    case False
    with "1.prems" show ?thesis by (simp add: grow_loop.simps resize_frame_refl)
  next
    case True
    from True "1.prems" obtain p1 p2 where
      a: "store_flag i p = Inr p1" and b: "set_thread i p1 = Inr p2"
      and c: "grow_loop (i + 1) n p2 = Inr p'"
      by (subst (asm) grow_loop.simps) (auto split: sum.splits)
    from "1.IH" [OF True a b c] have "resize_frame p2 p'" .
    with store_flag_frame [OF a] set_thread_frame [OF b] show ?thesis
      by (blast intro: resize_frame_trans)
  qed
qed

lemma shrink_loop_frame: "shrink_loop i n p = Inr p' \<Longrightarrow> resize_frame p p'"
proof (induction i n p rule: shrink_loop.induct)
  case (1 i n p)
  show ?case
  proof (cases "i \<ge> n")
    case False
    with "1.prems" show ?thesis by (simp add: shrink_loop.simps resize_frame_refl)
  next
    case True
    from True "1.prems" obtain p1 p2 where
      a: "set_flag i p = Inr p1" and b: "detach i p1 = Inr p2"
      and c: "shrink_loop (i - 1) n p2 = Inr p'"
      by (subst (asm) shrink_loop.simps) (auto split: sum.splits)
    from "1.IH" [OF True a b c] have "resize_frame p2 p'" .
    with set_flag_frame [OF a] detach_frame [OF b] show ?thesis
      by (blast intro: resize_frame_trans)
  qed
qed

lemma resize_frame_fields: "resize_frame p (p\<lparr>threads := ts, flags := fs\<rparr>)"
  by (simp add: resize_frame_def)

lemma resize_frame: "resize n p = Inr p' \<Longrightarrow> resize_frame p p'"
  unfolding resize_def
  by (auto simp: Let_def resize_frame_refl split: if_splits sum.splits
           dest!: grow_loop_frame shrink_loop_frame
           intro: resize_frame_trans [OF resize_frame_fields] resize_frame_trans [OF _ resize_frame_fields])


lemma worker_step_frame:
  "threads (worker_step t p) = threads p"
  "flags (worker_step t p) = flags p"
  "heap (worker_step t p) = heap p"
  "isDone (worker_step t p) = isDone p"
  "isStop (worker_step t p) = isStop p"
  "discarded (worker_step t p) = discarded p"
  "ctl (worker_step t p) = ctl p"
  "length (workers (worker_step t p)) = length (workers p)"
  by (auto simp: worker_step_def Let_def split: wpc.splits prod.splits option.splits)

lemma worker_step_other:
  "u \<noteq> t \<Longrightarrow> workers (worker_step t p) ! u = workers p ! u"
  by (auto simp: worker_step_def Let_def split: wpc.splits prod.splits option.splits)

lemma worker_step_consts:
  "w_flag (workers (worker_step t p) ! u) = w_flag (workers p ! u)"
  "w_i (workers (worker_step t p) ! u) = w_i (workers p ! u)"
  by (cases "u = t"; auto simp: worker_step_def Let_def split: wpc.splits prod.splits option.splits)+

lemma worker_step_executed:
  "executed (worker_step t p) = executed p \<or>
   (\<exists>k. t < length (workers p) \<and> w_pc (workers p ! t) = W_Exec \<and> w_f (workers p ! t) = Some k
        \<and> executed (worker_step t p) = executed p @ [(t, w_i (workers p ! t), k)])"
  by (auto simp: worker_step_def Let_def split: wpc.splits prod.splits option.splits)

lemma clear_queue_iter_frame:
  "clear_queue_iter p = (b, p') \<Longrightarrow>
     threads p' = threads p \<and> flags p' = flags p \<and> heap p' = heap p \<and> isDone p' = isDone p
     \<and> isStop p' = isStop p \<and> workers p' = workers p \<and> executed p' = executed p
     \<and> ctl p' = ctl p \<and> nWaiting p' = nWaiting p"
  by (auto simp: clear_queue_iter_def split: prod.splits if_splits)

lemma ctrl_step_frame:
  "workers (ctrl_step p) = workers p"
  "executed (ctrl_step p) = executed p"
  "isDone (ctrl_step p) = isDone p"
  "isStop (ctrl_step p) = isStop p"
  "nWaiting (ctrl_step p) = nWaiting p"
  by (auto simp: ctrl_step_def set_flag_def Let_def
           split: cpc.splits prod.splits option.splits sum.splits if_splits
           dest: clear_queue_iter_frame)

lemma ctrl_step_flag_mono: "flag_val (heap p) a \<Longrightarrow> flag_val (heap (ctrl_step p)) a"
  by (auto simp: ctrl_step_def set_flag_def Let_def flag_val_update
           split: cpc.splits prod.splits option.splits sum.splits if_splits
           dest: clear_queue_iter_frame)

section \<open>The worker after a task\<close>

lemma resize_frame_worker:
  "resize_frame p p' \<Longrightarrow> t < length (workers p) \<Longrightarrow>
     workers p' ! t = workers p ! t \<and> t < length (workers p')"
proof -
  assume a: "resize_frame p p'" and b: "t < length (workers p)"
  from a have c: "take (length (workers p)) (workers p') = workers p"
    by (simp add: resize_frame_def)
  from c have d: "length (workers p) \<le> length (workers p')"
    by (metis length_take min.cobounded1)
  from c b have "workers p ! t = workers p' ! t"
    by (metis nth_take)
  with d b show ?thesis by simp
qed

lemma step_flag_mono: "flag_val (heap p) a \<Longrightarrow> flag_val (heap (step e p)) a"
proof (cases e)
  case (Resize n)
  assume a: "flag_val (heap p) a"
  show ?thesis
  proof (cases "resize n p")
    case (Inl err)
    with a Resize show ?thesis by (simp add: step_def)
  next
    case (Inr p')
    from resize_frame [OF Inr] a have "flag_val (heap p') a"
      by (simp add: resize_frame_def)
    with a Inr Resize show ?thesis by (simp add: step_def)
  qed
qed (simp_all add: step_def worker_step_frame ctrl_step_flag_mono stop_call_def push_def
       thread_pool_pop_def split: prod.splits)

lemma step_other:
  "e \<noteq> Work t \<Longrightarrow> t < length (workers p) \<Longrightarrow>
     workers (step e p) ! t = workers p ! t \<and> t < length (workers (step e p))"
proof (cases e)
  case (Resize n)
  assume b: "t < length (workers p)"
  show ?thesis
  proof (cases "resize n p")
    case (Inl err)
    with b Resize show ?thesis by (simp add: step_def)
  next
    case (Inr p')
    from resize_frame_worker [OF resize_frame [OF Inr] b] b Inr Resize show ?thesis
      by (simp add: step_def)
  qed
next
  case (Work u)
  assume "e \<noteq> Work t" "t < length (workers p)"
  with Work show ?thesis
    by (simp add: step_def worker_step_frame worker_step_other)
qed (simp_all add: step_def ctrl_step_frame stop_call_def push_def
       thread_pool_pop_def split: prod.splits)

lemma step_executed_other:
  "e \<noteq> Work t \<Longrightarrow>
     filter (\<lambda>x. fst x = t) (executed (step e p)) = filter (\<lambda>x. fst x = t) (executed p)"
proof (cases e)
  case (Resize n)
  show ?thesis
  proof (cases "resize n p")
    case (Inl err)
    with Resize show ?thesis by (simp add: step_def)
  next
    case (Inr p')
    from resize_frame [OF Inr] have "executed p' = executed p"
      by (simp add: resize_frame_def)
    with Inr Resize show ?thesis by (simp add: step_def)
  qed
next
  case (Work u)
  assume "e \<noteq> Work t"
  with Work have "u \<noteq> t" by simp
  with worker_step_executed [of u p] Work show ?thesis
    by (auto simp: step_def)
qed (simp_all add: step_def ctrl_step_frame stop_call_def push_def
       thread_pool_pop_def split: prod.splits)

lemma retiring_worker_step:
  "retiring t p \<Longrightarrow>
     retiring t (worker_step t p)
     \<and> w_pc (workers (worker_step t p) ! t) = W_Retired
     \<and> q (worker_step t p) = q p
     \<and> executed (worker_step t p) = executed p"
  by (auto simp: retiring_def worker_step_def Let_def)

lemma retiring_step:
  "retiring t p \<Longrightarrow>
     retiring t (step e p)
     \<and> filter (\<lambda>x. fst x = t) (executed (step e p)) = filter (\<lambda>x. fst x = t) (executed p)"
proof (cases "e = Work t")
  case True
  assume "retiring t p"
  from retiring_worker_step [OF this] True show ?thesis
    by (simp add: step_def)
next
  case False
  assume a: "retiring t p"
  then have b: "t < length (workers p)" by (simp add: retiring_def)
  from step_other [OF False b] a step_flag_mono [of p "w_flag (workers p ! t)" e]
  have "retiring t (step e p)"
    by (simp add: retiring_def)
  with step_executed_other [OF False] show ?thesis by simp
qed

lemma retiring_run:
  "retiring t p \<Longrightarrow>
     retiring t (run es p)
     \<and> filter (\<lambda>x. fst x = t) (executed (run es p)) = filter (\<lambda>x. fst x = t) (executed p)"
proof (induction es arbitrary: p)
  case Nil
  then show ?case by simp
next
  case (Cons e es)
  from retiring_step [OF Cons.prems, of e] Cons.IH [of "step e p"] show ?case
    by simp
qed

lemma run_other:
  "Work t \<notin> set es \<Longrightarrow> t < length (workers p) \<Longrightarrow>
     workers (run es p) ! t = workers p ! t \<and> t < length (workers (run es p))"
proof (induction es arbitrary: p)
  case Nil
  then show ?case by simp
next
  case (Cons e es)
  from Cons.prems have a: "e \<noteq> Work t" and b: "Work t \<notin> set es" by auto
  from step_other [OF a Cons.prems(2)] Cons.IH [OF b, of "step e p"] show ?case
    by simp
qed

lemma run_append: "run (es1 @ es2) p = run es2 (run es1 p)"
  by (induction es1 arbitrary: p) simp_all

lemma run_executed_other:
  "Work t \<notin> set es \<Longrightarrow>
     filter (\<lambda>x. fst x = t) (executed (run es p)) = filter (\<lambda>x. fst x = t) (executed p)"
proof (induction es arbitrary: p)
  case Nil
  then show ?case by simp
next
  case (Cons e es)
  from Cons.prems have a: "e \<noteq> Work t" and b: "Work t \<notin> set es" by auto
  from step_executed_other [OF a, of p] Cons.IH [OF b, of "step e p"] show ?case
    by simp
qed

text \<open>
  Claim C7. A worker \<open>t\<close> that runs a task goes from the call to the test of its own
  flag without touching the queue. Whatever the other threads and the clients do before
  \<open>t\<close> acts again (\<open>es1\<close>), \<open>t\<close> is still at that test; and if the flag is set by
  then, in every continuation \<open>es\<close> the thread is at the test or has returned, its
  next action retires it and changes neither the queue nor the record of calls, and
  the calls it ever made are those it had made when the task ended: it pops and runs
  nothing more, whatever the queue holds.
\<close>

theorem worker_checks_flag_after_task:
  assumes "t < length (workers p)"
    and "w_pc (workers p ! t) = W_Exec"
    and "w_f (workers p ! t) = Some k"
    and "Work t \<notin> set es1"
    and "flag_val (heap (run es1 (worker_step t p))) (w_flag (workers p ! t))"
  shows "w_pc (workers (worker_step t p) ! t) = W_Check
     \<and> q (worker_step t p) = q p
     \<and> executed (worker_step t p) = executed p @ [(t, w_i (workers p ! t), k)]
     \<and> w_pc (workers (run es1 (worker_step t p)) ! t) = W_Check
     \<and> (\<forall>es. (w_pc (workers (run (es1 @ es) (worker_step t p)) ! t) = W_Check
               \<or> w_pc (workers (run (es1 @ es) (worker_step t p)) ! t) = W_Retired)
            \<and> w_pc (workers (worker_step t (run (es1 @ es) (worker_step t p))) ! t) = W_Retired
            \<and> q (worker_step t (run (es1 @ es) (worker_step t p))) = q (run (es1 @ es) (worker_step t p))
            \<and> executed (worker_step t (run (es1 @ es) (worker_step t p)))
                = executed (run (es1 @ es) (worker_step t p))
            \<and> filter (\<lambda>x. fst x = t) (executed (run (es1 @ es) (worker_step t p)))
                = filter (\<lambda>x. fst x = t) (executed p) @ [(t, w_i (workers p ! t), k)])"
proof -
  let ?p1 = "worker_step t p"
  let ?s1 = "run es1 ?p1"
  from assms(1-3) have a: "w_pc (workers ?p1 ! t) = W_Check" and b: "q ?p1 = q p"
    and c: "executed ?p1 = executed p @ [(t, w_i (workers p ! t), k)]"
    and d: "t < length (workers ?p1)" and e: "w_flag (workers ?p1 ! t) = w_flag (workers p ! t)"
    by (simp_all add: worker_step_def Let_def)
  from run_other [OF assms(4) d] have f: "workers ?s1 ! t = workers ?p1 ! t"
    and g: "t < length (workers ?s1)" by simp_all
  from f a have h: "w_pc (workers ?s1 ! t) = W_Check" by simp
  from f g h e assms(5) have r: "retiring t ?s1" by (simp add: retiring_def)
  have s1_exec: "filter (\<lambda>x. fst x = t) (executed ?s1)
                   = filter (\<lambda>x. fst x = t) (executed p) @ [(t, w_i (workers p ! t), k)]"
    using run_executed_other [OF assms(4), of ?p1] c by simp
  have later: "(w_pc (workers (run (es1 @ es) ?p1) ! t) = W_Check
               \<or> w_pc (workers (run (es1 @ es) ?p1) ! t) = W_Retired)
            \<and> w_pc (workers (worker_step t (run (es1 @ es) ?p1)) ! t) = W_Retired
            \<and> q (worker_step t (run (es1 @ es) ?p1)) = q (run (es1 @ es) ?p1)
            \<and> executed (worker_step t (run (es1 @ es) ?p1)) = executed (run (es1 @ es) ?p1)
            \<and> filter (\<lambda>x. fst x = t) (executed (run (es1 @ es) ?p1))
                = filter (\<lambda>x. fst x = t) (executed p) @ [(t, w_i (workers p ! t), k)]" for es
  proof -
    from retiring_run [OF r, of es] have r2: "retiring t (run es ?s1)"
      and x: "filter (\<lambda>x. fst x = t) (executed (run es ?s1))
                = filter (\<lambda>x. fst x = t) (executed ?s1)" by simp_all
    from r2 retiring_worker_step [OF r2] x s1_exec show ?thesis
      by (simp add: run_append retiring_def)
  qed
  from a b c h later show ?thesis by blast
qed



theorem worker_checks_flag_after_task_witness:
  "1 < length (workers (run [Resize 2, Push 7, Push 8, Push 9, Work 1, Resize 1] thread_pool_init))
   \<and> w_pc (workers (run [Resize 2, Push 7, Push 8, Push 9, Work 1, Resize 1] thread_pool_init) ! 1)
       = W_Exec
   \<and> w_f (workers (run [Resize 2, Push 7, Push 8, Push 9, Work 1, Resize 1] thread_pool_init) ! 1)
       = Some 7
   \<and> w_pc (workers (run ([Work 0] @ [Work 1, Work 1, Work 1])
        (worker_step 1 (run [Resize 2, Push 7, Push 8, Push 9, Work 1, Resize 1] thread_pool_init))) ! 1)
       = W_Retired
   \<and> q (run ([Work 0] @ [Work 1, Work 1, Work 1])
        (worker_step 1 (run [Resize 2, Push 7, Push 8, Push 9, Work 1, Resize 1] thread_pool_init)))
       = [Some 9]
   \<and> filter (\<lambda>x. fst x = 1) (executed (run ([Work 0] @ [Work 1, Work 1, Work 1])
        (worker_step 1 (run [Resize 2, Push 7, Push 8, Push 9, Work 1, Resize 1] thread_pool_init))))
       = [(1, 1, 7)]"
proof -
  let ?P = "run [Resize 2, Push 7, Push 8, Push 9, Work 1, Resize 1] thread_pool_init"
  have h1: "1 < length (workers ?P)" by code_simp
  have h2: "w_pc (workers ?P ! 1) = W_Exec" by code_simp
  have h3: "w_f (workers ?P ! 1) = Some 7" by code_simp
  have h4: "Work 1 \<notin> set [Work 0]" by simp
  have h5: "flag_val (heap (run [Work 0] (worker_step 1 ?P))) (w_flag (workers ?P ! 1))"
    by code_simp
  have e0: "filter (\<lambda>x. fst x = 1) (executed ?P) = []" by code_simp
  have i1: "w_i (workers ?P ! 1) = 1" by code_simp
  have r: "w_pc (workers (run ([Work 0] @ [Work 1, Work 1, Work 1]) (worker_step 1 ?P)) ! 1)
             = W_Retired" by code_simp
  have qq: "q (run ([Work 0] @ [Work 1, Work 1, Work 1]) (worker_step 1 ?P)) = [Some 9]"
    by code_simp
  from worker_checks_flag_after_task [OF h1 h2 h3 h4 h5]
  have "filter (\<lambda>x. fst x = 1)
          (executed (run ([Work 0] @ [Work 1, Work 1, Work 1]) (worker_step 1 ?P)))
        = filter (\<lambda>x. fst x = 1) (executed ?P) @ [(1, w_i (workers ?P ! 1), 7)]"
    by blast
  with e0 i1 have "filter (\<lambda>x. fst x = 1)
          (executed (run ([Work 0] @ [Work 1, Work 1, Work 1]) (worker_step 1 ?P)))
        = [(1, 1, 7)]" by simp
  with h1 h2 h3 r qq show ?thesis by blast
qed

section \<open>resize keeps the invariant of the vectors\<close>

lemma slot_ok_idle:
  "ctl p = C_Idle \<Longrightarrow>
   slot_ok p i = (\<exists>t a. threads p ! i = Some (t, Joinable) \<and> flags p ! i = Some a
        \<and> a < length (heap p) \<and> t < length (workers p) \<and> w_flag (workers p ! t) = a)"
  by (auto simp: slot_ok_def)

lemma grow_step:
  assumes inv: "grow_inv i n s" and lt: "i < n"
  shows "\<exists>s1 s2. store_flag i s = Inr s1 \<and> set_thread i s1 = Inr s2 \<and> grow_inv (i + 1) n s2"
proof -
  from inv have i0: "0 \<le> i" and idle: "ctl s = C_Idle"
    and lt': "length (threads s) = nat n" and lf: "length (flags s) = nat n"
    and ok: "\<forall>j < nat i. slot_ok s j"
    and none: "\<forall>j. nat i \<le> j \<and> j < nat n \<longrightarrow> threads s ! j = None"
    by (simp_all add: grow_inv_def)
  from i0 lt have ni: "nat i < nat n" by simp
  define s1 where "s1 = s\<lparr>heap := heap s @ [False],
                           flags := (flags s)[nat i := Some (length (heap s))]\<rparr>"
  define s2 where "s2 = s1\<lparr>workers := workers s1 @
                         [\<lparr>w_i = i, w_flag = length (heap s), w_f = None, w_isPop = False, w_pc = W_Pop\<rparr>],
                       threads := (threads s1)[nat i := Some (length (workers s1), Joinable)]\<rparr>"
  from i0 lt lf have a: "store_flag i s = Inr s1"
    by (simp add: store_flag_def s1_def)
  from none ni have tn: "threads s ! nat i = None" by simp
  from i0 lt lf lt' tn have b: "set_thread i s1 = Inr s2"
    by (simp add: set_thread_def s1_def s2_def thread_destroy_ok_def)
  have c: "slot_ok s2 j" if j: "j < nat (i + 1)" for j
  proof (cases "j = nat i")
    case True
    with ni lt' lf idle show ?thesis
      by (simp add: slot_ok_idle s2_def s1_def)
  next
    case False
    with j i0 have jl: "j < nat i" by linarith
    with ok have "slot_ok s j" by simp
    with idle obtain t a where "threads s ! j = Some (t, Joinable)" "flags s ! j = Some a"
      "a < length (heap s)" "t < length (workers s)" "w_flag (workers s ! t) = a"
      by (auto simp: slot_ok_idle)
    with False idle show ?thesis
      by (simp add: slot_ok_idle s2_def s1_def nth_append)
  qed
  have d: "threads s2 ! j = None" if "nat (i + 1) \<le> j \<and> j < nat n" for j
  proof -
    from that i0 have "j \<noteq> nat i" "nat i \<le> j" "j < nat n" by linarith+
    with none show ?thesis by (simp add: s2_def s1_def)
  qed
  from i0 lt idle lt' lf c d have "grow_inv (i + 1) n s2"
    by (simp add: grow_inv_def s2_def s1_def)
  with a b show ?thesis by blast
qed

lemma grow_loop_inv:
  "grow_inv i n s \<Longrightarrow> \<exists>s'. grow_loop i n s = Inr s' \<and> grow_inv n n s'"
proof (induction i n s rule: grow_loop.induct)
  case (1 i n s)
  show ?case
  proof (cases "i < n")
    case False
    with "1.prems" have "i = n" by (simp add: grow_inv_def)
    with "1.prems" show ?thesis by (simp add: grow_loop.simps)
  next
    case True
    from grow_step [OF "1.prems" True] obtain s1 s2 where
      a: "store_flag i s = Inr s1" and b: "set_thread i s1 = Inr s2"
      and c: "grow_inv (i + 1) n s2" by blast
    from "1.IH" [OF True a b c] obtain s' where
      "grow_loop (i + 1) n s2 = Inr s'" "grow_inv n n s'" by blast
    with True a b show ?thesis
      by (subst grow_loop.simps) simp
  qed
qed


lemma shrink_step:
  assumes inv: "shrink_inv i s" and i0: "0 \<le> i"
  shows "\<exists>s1 s2. set_flag i s = Inr s1 \<and> detach i s1 = Inr s2 \<and> shrink_inv (i - 1) s2
           \<and> flags s2 = flags s \<and> length (threads s2) = length (threads s)"
proof -
  from inv have il: "i < int (length (threads s))" and idle: "ctl s = C_Idle"
    and lf: "length (flags s) = length (threads s)"
    and ok: "\<forall>j. int j \<le> i \<longrightarrow> slot_ok s j"
    and det: "\<forall>j. i < int j \<and> j < length (threads s) \<longrightarrow>
            (\<exists>t a. threads s ! j = Some (t, Detached) \<and> flags s ! j = Some a
               \<and> flag_val (heap s) a)"
    by (simp_all add: shrink_inv_def)
  from i0 ok have "slot_ok s (nat i)" by simp
  with idle obtain t a where ti: "threads s ! nat i = Some (t, Joinable)"
    and fi: "flags s ! nat i = Some a" and al: "a < length (heap s)"
    by (auto simp: slot_ok_idle)
  define s1 where "s1 = s\<lparr>heap := (heap s)[a := True]\<rparr>"
  define s2 where "s2 = s1\<lparr>threads := (threads s1)[nat i := Some (t, Detached)]\<rparr>"
  from i0 il lf fi have a: "set_flag i s = Inr s1"
    by (simp add: set_flag_def s1_def)
  from i0 il ti have b: "detach i s1 = Inr s2"
    by (simp add: detach_def s1_def s2_def)
  have c: "slot_ok s2 j" if "int j \<le> i - 1" for j
  proof -
    from that have ne: "j \<noteq> nat i" and "int j \<le> i" by linarith+
    with ok have "slot_ok s j" by simp
    with idle ne show ?thesis
      by (auto simp: slot_ok_idle s2_def s1_def)
  qed
  have d: "\<exists>t a. threads s2 ! j = Some (t, Detached) \<and> flags s2 ! j = Some a
               \<and> flag_val (heap s2) a" if j: "i - 1 < int j \<and> j < length (threads s2)" for j
  proof (cases "j = nat i")
    case True
    with i0 il fi al show ?thesis
      by (simp add: s2_def s1_def flag_val_def)
  next
    case False
    from j have "j < length (threads s)" by (simp add: s2_def s1_def)
    moreover from False j i0 have "i < int j" by linarith
    ultimately have "i < int j" "j < length (threads s)" by simp_all
    with det obtain t' a' where "threads s ! j = Some (t', Detached)" "flags s ! j = Some a'"
      "flag_val (heap s) a'" by blast
    with False show ?thesis
      by (simp add: s2_def s1_def flag_val_update)
  qed
  from i0 il idle lf c d have "shrink_inv (i - 1) s2"
    unfolding shrink_inv_def by (simp add: s2_def s1_def)
  with a b show ?thesis by (auto simp: s2_def s1_def)
qed

lemma shrink_loop_inv:
  "shrink_inv i s \<Longrightarrow> 0 \<le> n \<Longrightarrow> n - 1 \<le> i \<Longrightarrow>
     \<exists>s'. shrink_loop i n s = Inr s' \<and> shrink_inv (n - 1) s'
         \<and> flags s' = flags s \<and> length (threads s') = length (threads s)"
proof (induction i n s rule: shrink_loop.induct)
  case (1 i n s)
  show ?case
  proof (cases "i \<ge> n")
    case False
    with "1.prems" have "i = n - 1" by simp
    with "1.prems" show ?thesis by (simp add: shrink_loop.simps)
  next
    case True
    with "1.prems" have i0: "0 \<le> i" by simp
    from shrink_step [OF "1.prems"(1) i0] obtain s1 s2 where
      a: "set_flag i s = Inr s1" and b: "detach i s1 = Inr s2"
      and c: "shrink_inv (i - 1) s2" and d: "flags s2 = flags s"
      and e: "length (threads s2) = length (threads s)" by blast
    from True have f: "n - 1 \<le> i - 1" by simp
    from "1.IH" [OF True a b c "1.prems"(2) f] obtain s' where
      "shrink_loop (i - 1) n s2 = Inr s'" "shrink_inv (n - 1) s'"
      "flags s' = flags s2" "length (threads s') = length (threads s2)" by blast
    with True a b d e show ?thesis
      by (subst shrink_loop.simps) simp
  qed
qed


lemma length_vec_resize: "length (vec_resize n xs) = n"
  by (simp add: vec_resize_def)

lemma vec_resize_nth_old: "j < length xs \<Longrightarrow> j < n \<Longrightarrow> vec_resize n xs ! j = xs ! j"
  by (simp add: vec_resize_def nth_append)

lemma vec_resize_nth_new: "length xs \<le> j \<Longrightarrow> j < n \<Longrightarrow> vec_resize n xs ! j = None"
  by (simp add: vec_resize_def nth_append)

lemma slot_ok_cong:
  "threads p' ! i = threads p ! i \<Longrightarrow> flags p' ! i = flags p ! i \<Longrightarrow> ctl p' = ctl p \<Longrightarrow>
   heap p' = heap p \<Longrightarrow> workers p' = workers p \<Longrightarrow> slot_ok p' i = slot_ok p i"
  by (simp add: slot_ok_def)

lemma resize_grow_ok:
  assumes inv: "pool_inv p" and idle: "ctl p = C_Idle"
    and run: "\<not> isStop p" "\<not> isDone p" and le: "int (length (threads p)) \<le> n"
  shows "\<exists>p'. resize n p = Inr p' \<and> pool_inv p' \<and> size_pool p' = n"
proof -
  let ?p0 = "p\<lparr>threads := vec_resize (nat n) (threads p),
               flags := vec_resize (nat n) (flags p)\<rparr>"
  from inv have lf: "length (flags p) = length (threads p)"
    and ok: "\<forall>i < length (threads p). slot_ok p i" by (simp_all add: pool_inv_def)
  have a: "slot_ok ?p0 j" if "j < nat (int (length (threads p)))" for j
  proof -
    from that le have "j < length (threads p)" "j < nat n" by simp_all
    with lf ok slot_ok_cong [of ?p0 j p] show ?thesis
      by (simp add: vec_resize_nth_old)
  qed
  have b: "threads ?p0 ! j = None" if "nat (int (length (threads p))) \<le> j \<and> j < nat n" for j
    using that by (simp add: vec_resize_nth_new)
  from le idle a b have "grow_inv (int (length (threads p))) n ?p0"
    unfolding grow_inv_def by (simp add: length_vec_resize)
  from grow_loop_inv [OF this] obtain s' where
    g: "grow_loop (int (length (threads p))) n ?p0 = Inr s'" and gi: "grow_inv n n s'" by blast
  from grow_loop_frame [OF g] run have st: "\<not> isStop s'" "\<not> isDone s'"
    by (simp_all add: resize_frame_def)
  from gi st have "pool_inv s'" "size_pool s' = n"
    by (simp_all add: grow_inv_def pool_inv_def size_pool_def)
  moreover from run le g have "resize n p = Inr s'"
    by (simp add: resize_def)
  ultimately show ?thesis by blast
qed

lemma resize_shrink_ok:
  assumes inv: "pool_inv p" and idle: "ctl p = C_Idle"
    and run: "\<not> isStop p" "\<not> isDone p" and n0: "0 \<le> n" and gt: "n < int (length (threads p))"
  shows "\<exists>p'. resize n p = Inr p' \<and> pool_inv p' \<and> size_pool p' = n
           \<and> (\<forall>i. n \<le> int i \<and> i < length (threads p) \<longrightarrow>
                 (\<exists>a. flags p ! i = Some a \<and> flag_val (heap p') a))"
proof -
  from inv have lf: "length (flags p) = length (threads p)"
    and ok: "\<forall>i < length (threads p). slot_ok p i" by (simp_all add: pool_inv_def)
  from lf ok idle gt n0 have "shrink_inv (int (length (threads p)) - 1) p"
    by (auto simp: shrink_inv_def)
  from shrink_loop_inv [OF this n0] gt obtain s' where
    g: "shrink_loop (int (length (threads p)) - 1) n p = Inr s'"
    and si: "shrink_inv (n - 1) s'" and fl: "flags s' = flags p"
    and ln: "length (threads s') = length (threads p)" by auto
  from si have idle': "ctl s' = C_Idle" and lf': "length (flags s') = length (threads s')"
    and ok': "\<forall>j. int j \<le> n - 1 \<longrightarrow> slot_ok s' j"
    and det: "\<forall>j. n - 1 < int j \<and> j < length (threads s') \<longrightarrow>
            (\<exists>t a. threads s' ! j = Some (t, Detached) \<and> flags s' ! j = Some a
               \<and> flag_val (heap s') a)"
    by (simp_all add: shrink_inv_def)
  let ?p' = "s'\<lparr>threads := vec_resize (nat n) (threads s'),
                flags := vec_resize (nat n) (flags s')\<rparr>"
  have destroy: "list_all thread_destroy_ok (drop (nat n) (threads s'))"
  proof -
    have "thread_destroy_ok (drop (nat n) (threads s') ! k)"
      if "k < length (drop (nat n) (threads s'))" for k
    proof -
      from that n0 have "n - 1 < int (nat n + k)" "nat n + k < length (threads s')" by simp_all
      with det obtain t a where "threads s' ! (nat n + k) = Some (t, Detached)" by blast
      with that show ?thesis by (simp add: thread_destroy_ok_def)
    qed
    then show ?thesis by (simp only: list_all_length) blast
  qed
  from run gt n0 g destroy have r: "resize n p = Inr ?p'"
    by (simp add: resize_def)
  from shrink_loop_frame [OF g] run have st: "\<not> isStop s'" "\<not> isDone s'"
    by (simp_all add: resize_frame_def)
  have slots: "slot_ok ?p' j" if "j < nat n" for j
  proof -
    from that n0 have "int j \<le> n - 1" by linarith
    with ok' have "slot_ok s' j" by simp
    moreover from that gt ln lf' have "j < length (threads s')" "j < length (flags s')" by simp_all
    ultimately show ?thesis using that slot_ok_cong [of ?p' j s']
      by (simp add: vec_resize_nth_old)
  qed
  from slots st idle' n0 have pi: "pool_inv ?p'"
    by (simp add: pool_inv_def length_vec_resize)
  from n0 have sz: "size_pool ?p' = n"
    by (simp add: size_pool_def length_vec_resize)
  have set: "\<exists>a. flags p ! i = Some a \<and> flag_val (heap ?p') a"
    if "n \<le> int i \<and> i < length (threads p)" for i
  proof -
    from that ln have "n - 1 < int i \<and> i < length (threads s')" by simp
    with det fl show ?thesis by auto
  qed
  from r pi sz set show ?thesis by blast
qed

lemma resize_ok:
  assumes inv: "pool_inv p" and idle: "ctl p = C_Idle" and n0: "0 \<le> n"
  shows "\<exists>p'. resize n p = Inr p' \<and> pool_inv p'"
proof (cases "\<not> isStop p \<and> \<not> isDone p")
  case False
  with inv show ?thesis by (auto simp: resize_def)
next
  case True
  show ?thesis
  proof (cases "int (length (threads p)) \<le> n")
    case le: True
    with resize_grow_ok [OF inv idle _ _ le] True show ?thesis by blast
  next
    case False
    then have "n < int (length (threads p))" by simp
    with resize_shrink_ok [OF inv idle _ _ n0] True show ?thesis by blast
  qed
qed

section \<open>Every event keeps the invariant of the vectors\<close>

lemma ctl_ok_cong:
  "threads p' = threads p \<Longrightarrow> isStop p' = isStop p \<Longrightarrow> isDone p' = isDone p \<Longrightarrow>
   ctl_ok p' c = ctl_ok p c"
  by (cases c) simp_all

lemma pool_inv_cong:
  "threads p' = threads p \<Longrightarrow> flags p' = flags p \<Longrightarrow> ctl p' = ctl p \<Longrightarrow>
   isStop p' = isStop p \<Longrightarrow> isDone p' = isDone p \<Longrightarrow> length (heap p') = length (heap p) \<Longrightarrow>
   length (workers p') = length (workers p) \<Longrightarrow>
   (\<And>t. w_flag (workers p' ! t) = w_flag (workers p ! t)) \<Longrightarrow>
   pool_inv p \<Longrightarrow> pool_inv p'"
  by (simp add: pool_inv_def slot_ok_def ctl_ok_cong [of p' p])

lemma pool_inv_worker_step: "pool_inv p \<Longrightarrow> pool_inv (worker_step t p)"
  by (rule pool_inv_cong [of _ p]) (simp_all add: worker_step_frame worker_step_consts)

lemma pool_inv_push: "pool_inv p \<Longrightarrow> pool_inv (push k p)"
  by (rule pool_inv_cong [of _ p]) (simp_all add: push_def)

lemma pool_inv_pop: "pool_inv p \<Longrightarrow> pool_inv (snd (thread_pool_pop p))"
  by (rule pool_inv_cong [of _ p]) (simp_all add: thread_pool_pop_def split: prod.splits)

lemma pool_inv_stop_call: "pool_inv p \<Longrightarrow> ctl p = C_Idle \<Longrightarrow> pool_inv (stop_call w p)"
  by (auto simp: pool_inv_def slot_ok_def stop_call_def size_pool_def)

lemma pool_inv_clear_queue_iter:
  "pool_inv p \<Longrightarrow> pool_inv (snd (clear_queue_iter p))"
  by (rule pool_inv_cong [of _ p]) (auto simp: clear_queue_iter_def split: prod.splits)


lemma pool_inv_ctl:
  "pool_inv p \<Longrightarrow> (\<And>i st. i < length (threads p) \<Longrightarrow> st_ok (ctl p) i st \<Longrightarrow> st_ok c i st) \<Longrightarrow>
   ctl_ok p c \<Longrightarrow> pool_inv (p\<lparr>ctl := c\<rparr>)"
  unfolding pool_inv_def slot_ok_def
  by (auto simp: ctl_ok_cong [of "p\<lparr>ctl := c\<rparr>" p])

lemma pool_inv_flags_step:
  assumes inv: "pool_inv p" and c: "ctl p = C_Stop_Flags i n"
  shows "pool_inv (ctrl_step p)"
proof (cases "i < n")
  case False
  from inv c have "isStop p" by (simp add: pool_inv_def)
  with c have "pool_inv (p\<lparr>ctl := C_Stop_Clear1\<rparr>)"
    by (intro pool_inv_ctl [OF inv]) simp_all
  with False c show ?thesis by (simp add: ctrl_step_def)
next
  case True
  from inv c have i0: "0 \<le> i" and n: "n = int (length (threads p))" and st: "isStop p"
    and lf: "length (flags p) = length (threads p)"
    and ok: "\<forall>j < length (threads p). slot_ok p j"
    by (simp_all add: pool_inv_def)
  from True i0 n ok have "slot_ok p (nat i)" by simp
  then obtain a where fa: "flags p ! nat i = Some a" by (auto simp: slot_ok_def)
  let ?p1 = "p\<lparr>heap := (heap p)[a := True]\<rparr>"
  from True i0 n lf fa have sf: "set_flag i p = Inr ?p1"
    by (simp add: set_flag_def)
  from inv have "pool_inv ?p1"
    by (rule pool_inv_cong [of _ p, rotated -1]) simp_all
  moreover from c have "ctl ?p1 = C_Stop_Flags i n" by simp
  ultimately have "pool_inv (?p1\<lparr>ctl := C_Stop_Flags (i + 1) n\<rparr>)"
    using i0 n st by (intro pool_inv_ctl) simp_all
  with True c sf show ?thesis by (simp add: ctrl_step_def)
qed

lemma pool_inv_clear1_step:
  assumes inv: "pool_inv p" and c: "ctl p = C_Stop_Clear1"
  shows "pool_inv (ctrl_step p)"
proof -
  obtain b p1 where cq: "clear_queue_iter p = (b, p1)" by (cases "clear_queue_iter p")
  from pool_inv_clear_queue_iter [OF inv] cq have i1: "pool_inv p1" by simp
  from clear_queue_iter_frame [OF cq] c have c1: "ctl p1 = C_Stop_Clear1" by simp
  from i1 c1 have "isStop p1 \<or> isDone p1" by (simp add: pool_inv_def)
  with c1 have "pool_inv (p1\<lparr>ctl := C_Stop_Notify\<rparr>)"
    by (intro pool_inv_ctl [OF i1]) simp_all
  with i1 cq c show ?thesis by (simp add: ctrl_step_def)
qed

lemma pool_inv_notify_step:
  assumes inv: "pool_inv p" and c: "ctl p = C_Stop_Notify"
  shows "pool_inv (ctrl_step p)"
proof -
  from inv c have "isStop p \<or> isDone p" by (simp add: pool_inv_def)
  with c have "pool_inv (p\<lparr>ctl := C_Stop_Join 0\<rparr>)"
    by (intro pool_inv_ctl [OF inv]) simp_all
  with c show ?thesis by (simp add: ctrl_step_def)
qed

lemma pool_inv_clear2_step:
  assumes inv: "pool_inv p" and c: "ctl p = C_Stop_Clear2"
  shows "pool_inv (ctrl_step p)"
proof -
  obtain b p1 where cq: "clear_queue_iter p = (b, p1)" by (cases "clear_queue_iter p")
  from pool_inv_clear_queue_iter [OF inv] cq have i1: "pool_inv p1" by simp
  from clear_queue_iter_frame [OF cq] c have c1: "ctl p1 = C_Stop_Clear2" by simp
  from i1 c1 have "isStop p1 \<or> isDone p1" by (simp add: pool_inv_def)
  with c1 have "pool_inv (p1\<lparr>ctl := C_Stop_Free\<rparr>)"
    by (intro pool_inv_ctl [OF i1]) simp_all
  with i1 cq c show ?thesis by (simp add: ctrl_step_def)
qed

lemma pool_inv_free_step:
  assumes inv: "pool_inv p" and c: "ctl p = C_Stop_Free"
  shows "pool_inv (ctrl_step p)"
proof -
  from inv c have ok: "\<forall>j < length (threads p). slot_ok p j"
    by (simp_all add: pool_inv_def)
  have "thread_destroy_ok (threads p ! j)" if "j < length (threads p)" for j
  proof -
    from that ok have "slot_ok p j" by simp
    with c show ?thesis by (auto simp: slot_ok_def thread_destroy_ok_def)
  qed
  then have "list_all thread_destroy_ok (threads p)"
    by (simp only: list_all_length) blast
  with c show ?thesis by (simp add: ctrl_step_def pool_inv_def)
qed


lemma pool_inv_join_step:
  assumes inv: "pool_inv p" and c: "ctl p = C_Stop_Join i"
  shows "pool_inv (ctrl_step p)"
proof (cases "i < int (length (threads p))")
  case False
  from inv c have sd: "isStop p \<or> isDone p" by (simp add: pool_inv_def)
  have "st_ok C_Stop_Clear2 j st" if "j < length (threads p)" "st_ok (ctl p) j st" for j st
  proof -
    from that False have "int j < i" by linarith
    with that c show ?thesis by simp
  qed
  with sd have "pool_inv (p\<lparr>ctl := C_Stop_Clear2\<rparr>)"
    by (intro pool_inv_ctl [OF inv]) simp_all
  with False c show ?thesis by (simp add: ctrl_step_def)
next
  case True
  from inv c have i0: "0 \<le> i" and sd: "isStop p \<or> isDone p"
    and lf: "length (flags p) = length (threads p)"
    and ok: "\<forall>j < length (threads p). slot_ok p j"
    by (simp_all add: pool_inv_def)
  from True i0 ok have "slot_ok p (nat i)" by simp
  with c i0 obtain t a where ti: "threads p ! nat i = Some (t, Joinable)"
    and fa: "flags p ! nat i = Some a" and al: "a < length (heap p)"
    and tl: "t < length (workers p)" and wf: "w_flag (workers p ! t) = a"
    by (auto simp: slot_ok_def)
  show ?thesis
  proof (cases "w_pc (workers p ! t) = W_Retired")
    case False
    with True i0 c ti inv show ?thesis by (simp add: ctrl_step_def)
  next
    case ret: True
    let ?p' = "p\<lparr>threads := (threads p)[nat i := Some (t, Joined)], ctl := C_Stop_Join (i + 1)\<rparr>"
    have "slot_ok ?p' j" if j: "j < length (threads p)" for j
    proof (cases "j = nat i")
      case True
      with j i0 fa al tl wf show ?thesis by (simp add: slot_ok_def)
    next
      case False
      from j ok have "slot_ok p j" by simp
      then obtain t' st' a' where x: "threads p ! j = Some (t', st')" "flags p ! j = Some a'"
        "st_ok (ctl p) j st'" "a' < length (heap p)" "t' < length (workers p)"
        "w_flag (workers p ! t') = a'" by (auto simp: slot_ok_def)
      from False i0 have "int j < i + 1 \<longleftrightarrow> int j < i" by linarith
      with x c False show ?thesis by (simp add: slot_ok_def)
    qed
    with lf i0 sd have "pool_inv ?p'" by (simp add: pool_inv_def)
    with True i0 c ti tl ret show ?thesis by (simp add: ctrl_step_def)
  qed
qed

lemma pool_inv_ctrl_step: "pool_inv p \<Longrightarrow> pool_inv (ctrl_step p)"
proof (cases "ctl p")
  case C_Idle
  assume "pool_inv p"
  with C_Idle show ?thesis by (simp add: ctrl_step_def)
next
  case (C_Fault e)
  assume "pool_inv p"
  with C_Fault show ?thesis by (simp add: pool_inv_def)
qed (simp_all add: pool_inv_flags_step pool_inv_clear1_step pool_inv_notify_step
       pool_inv_join_step pool_inv_clear2_step pool_inv_free_step)

lemma pool_inv_step: "pool_inv p \<Longrightarrow> admissible e \<Longrightarrow> pool_inv (step e p)"
proof (cases e)
  case (Resize n)
  assume inv: "pool_inv p" and "admissible e"
  with Resize have n0: "0 \<le> n" by simp
  show ?thesis
  proof (cases "ctl p = C_Idle")
    case True
    from resize_ok [OF inv True n0] inv Resize True show ?thesis
      by (auto simp: step_def)
  next
    case False
    with inv Resize show ?thesis by (simp add: step_def)
  qed
qed (simp_all add: step_def pool_inv_worker_step pool_inv_ctrl_step pool_inv_stop_call
       pool_inv_push pool_inv_pop)

lemma pool_inv_init: "pool_inv thread_pool_init"
  by (simp add: pool_inv_def thread_pool_init_def)

lemma reachable_pool_inv: "reachable p \<Longrightarrow> pool_inv p"
  by (induction rule: reachable.induct) (simp_all add: pool_inv_init pool_inv_step)

lemma reachable_run: "reachable p \<Longrightarrow> list_all admissible es \<Longrightarrow> reachable (run es p)"
  by (induction es arbitrary: p) (simp_all add: reachable_step)

lemma pool_inv_no_fault: "pool_inv p \<Longrightarrow> ctl p \<noteq> C_Fault e"
  by (auto simp: pool_inv_def)

lemma pool_inv_busy: "pool_inv p \<Longrightarrow> ctl p \<noteq> C_Idle \<Longrightarrow> isStop p \<or> isDone p"
  by (cases "ctl p") (simp_all add: pool_inv_def)

section \<open>Index safety and the result of resize\<close>

lemma shrink_loop_negative:
  "shrink_inv i s \<Longrightarrow> n < 0 \<Longrightarrow>
     shrink_loop i n s = Inl (OutOfBounds (- 1) (length (flags s)))"
proof (induction i n s rule: shrink_loop.induct)
  case (1 i n s)
  show ?case
  proof (cases "0 \<le> i")
    case False
    with "1.prems" have i: "i = - 1" by (simp add: shrink_inv_def)
    with "1.prems" show ?thesis
      by (subst shrink_loop.simps) (simp add: set_flag_def)
  next
    case True
    with "1.prems" have ge: "i \<ge> n" by simp
    from shrink_step [OF "1.prems"(1) True] obtain s1 s2 where
      a: "set_flag i s = Inr s1" and b: "detach i s1 = Inr s2"
      and c: "shrink_inv (i - 1) s2" and d: "flags s2 = flags s" by blast
    from "1.IH" [OF ge a b c "1.prems"(2)] d ge a b show ?thesis
      by (subst shrink_loop.simps) simp
  qed
qed

lemma resize_negative:
  assumes inv: "pool_inv p" and idle: "ctl p = C_Idle"
    and run: "\<not> isStop p" "\<not> isDone p" and neg: "n < 0"
  shows "resize n p = Inl (OutOfBounds (- 1) (length (flags p)))"
proof -
  from inv have lf: "length (flags p) = length (threads p)"
    and ok: "\<forall>i < length (threads p). slot_ok p i" by (simp_all add: pool_inv_def)
  from lf ok idle have "shrink_inv (int (length (threads p)) - 1) p"
    by (auto simp: shrink_inv_def)
  from shrink_loop_negative [OF this neg] run neg show ?thesis
    by (simp add: resize_def)
qed

text \<open>
  Claim C10. In every state a pool can reach
  \<^verbatim>\<open>resize(n)\<close> with \<open>0 \<le> n\<close> returns normally: every access \<^verbatim>\<open>flags[i]\<close> and
  \<^verbatim>\<open>threads[i]\<close> it makes has \<open>0 \<le> i\<close> below the size of the vector (an access
  outside would be the result \<open>OutOfBounds\<close>), no null pointer is dereferenced and no
  joinable thread is destroyed. The bound needs \<open>0 \<le> n\<close>: with a negative argument \<open>m\<close>
  on a running pool the loop of line 230 counts down past zero and reads
  \<^verbatim>\<open>flags[-1]\<close>.
\<close>

theorem resize_index_safety:
  "(0 \<le> n \<and> reachable p \<longrightarrow> (\<exists>p'. resize n p = Inr p'))
   \<and> (m < 0 \<and> reachable p \<and> \<not> isStop p \<and> \<not> isDone p \<longrightarrow>
        resize m p = Inl (OutOfBounds (- 1) (length (flags p))))"
proof (intro conjI impI)
  assume a: "0 \<le> n \<and> reachable p"
  show "\<exists>p'. resize n p = Inr p'"
  proof (cases "ctl p = C_Idle")
    case True
    with a resize_ok [of p n] reachable_pool_inv [of p] show ?thesis by blast
  next
    case False
    from a pool_inv_busy [OF reachable_pool_inv False] have "resize n p = Inr p"
      by (auto simp: resize_def)
    then show ?thesis by blast
  qed
next
  assume a: "m < 0 \<and> reachable p \<and> \<not> isStop p \<and> \<not> isDone p"
  with pool_inv_busy [OF reachable_pool_inv, of p] have "ctl p = C_Idle" by blast
  with a resize_negative [of p m] reachable_pool_inv [of p]
  show "resize m p = Inl (OutOfBounds (- 1) (length (flags p)))"
    by blast
qed

theorem resize_index_safety_witness:
  "reachable (run [Resize 3, Push 7, Work 0] thread_pool_init)
   \<and> ctl (run [Resize 3, Push 7, Work 0] thread_pool_init) = C_Idle
   \<and> (\<exists>p'. resize 1 (run [Resize 3, Push 7, Work 0] thread_pool_init) = Inr p')
   \<and> resize (- 1) (run [Resize 3, Push 7, Work 0] thread_pool_init) = Inl (OutOfBounds (- 1) 3)"
proof -
  let ?P = "run [Resize 3, Push 7, Work 0] thread_pool_init"
  have r: "reachable ?P"
    by (rule reachable_run [OF reachable_init]) simp
  have c: "ctl ?P = C_Idle" by code_simp
  have s: "\<not> isStop ?P" "\<not> isDone ?P" by code_simp+
  have l: "length (flags ?P) = 3" by code_simp
  from resize_index_safety [of 1 ?P "- 1"] r s l have
    "(\<exists>p'. resize 1 ?P = Inr p') \<and> resize (- 1) ?P = Inl (OutOfBounds (- 1) 3)"
    by simp
  with r c show ?thesis by blast
qed

text \<open>
  Claim C5. On a running pool (neither stopped nor draining), in a state a pool can
  reach, \<^verbatim>\<open>resize(k)\<close> with \<open>0 \<le> k\<close> returns
  normally a pool of size \<open>k\<close>, and for every index \<open>i\<close> with \<open>k \<le> i\<close> the pool had
  before, the flag cell of slot \<open>i\<close>, which is the cell the worker of that slot tests,
  holds true afterwards.
\<close>

theorem resize_sets_size_and_flags:
  assumes r: "reachable p"
    and run: "\<not> isStop p" "\<not> isDone p" and k0: "0 \<le> k"
  shows "\<exists>p'. resize k p = Inr p' \<and> size_pool p' = k
           \<and> (\<forall>i. k \<le> int i \<and> i < length (threads p) \<longrightarrow>
                 (\<exists>t st a. threads p ! i = Some (t, st) \<and> flags p ! i = Some a
                    \<and> t < length (workers p') \<and> w_flag (workers p' ! t) = a
                    \<and> flag_val (heap p') a))"
proof (cases "int (length (threads p)) \<le> k")
  from run pool_inv_busy [OF reachable_pool_inv [OF r]] have idle: "ctl p = C_Idle" by blast
  case True
  from resize_grow_ok [OF reachable_pool_inv [OF r] idle run True] True show ?thesis
    by auto
next
  from run pool_inv_busy [OF reachable_pool_inv [OF r]] have idle: "ctl p = C_Idle" by blast
  case False
  then have lt: "k < int (length (threads p))" by simp
  from reachable_pool_inv [OF r] have ok: "\<forall>i < length (threads p). slot_ok p i"
    by (simp add: pool_inv_def)
  from resize_shrink_ok [OF reachable_pool_inv [OF r] idle run k0 lt] obtain p' where
    a: "resize k p = Inr p'" and b: "size_pool p' = k"
    and c: "\<forall>i. k \<le> int i \<and> i < length (threads p) \<longrightarrow>
                 (\<exists>a. flags p ! i = Some a \<and> flag_val (heap p') a)" by blast
  have "\<exists>t st a. threads p ! i = Some (t, st) \<and> flags p ! i = Some a
                    \<and> t < length (workers p') \<and> w_flag (workers p' ! t) = a
                    \<and> flag_val (heap p') a" if i: "k \<le> int i \<and> i < length (threads p)" for i
  proof -
    from i ok have "slot_ok p i" by simp
    then obtain t st a where x: "threads p ! i = Some (t, st)" "flags p ! i = Some a"
      "t < length (workers p)" "w_flag (workers p ! t) = a" by (auto simp: slot_ok_def)
    from resize_frame_worker [OF resize_frame [OF a] x(3)] x c i show ?thesis
      by auto
  qed
  with a b show ?thesis by blast
qed

theorem resize_sets_size_and_flags_witness:
  "reachable (run [Resize 3, Push 7, Work 0] thread_pool_init)
   \<and> ctl (run [Resize 3, Push 7, Work 0] thread_pool_init) = C_Idle
   \<and> (\<exists>p'. resize 1 (run [Resize 3, Push 7, Work 0] thread_pool_init) = Inr p'
          \<and> size_pool p' = 1 \<and> flag_val (heap p') 1 \<and> flag_val (heap p') 2
          \<and> w_flag (workers p' ! 2) = 2)"
proof -
  let ?P = "run [Resize 3, Push 7, Work 0] thread_pool_init"
  have r: "reachable ?P"
    by (rule reachable_run [OF reachable_init]) simp
  have c: "ctl ?P = C_Idle" by code_simp
  have s: "\<not> isStop ?P" "\<not> isDone ?P" by code_simp+
  have l: "length (threads ?P) = 3" by code_simp
  have f: "flags ?P ! 1 = Some 1" "flags ?P ! 2 = Some 2" by code_simp+
  have t: "threads ?P ! 2 = Some (2, Joinable)" by code_simp
  from resize_sets_size_and_flags [OF r s, of 1] obtain p' where
    a: "resize 1 ?P = Inr p'" and b: "size_pool p' = 1"
    and d: "\<forall>i. 1 \<le> int i \<and> i < length (threads ?P) \<longrightarrow>
                 (\<exists>t st a. threads ?P ! i = Some (t, st) \<and> flags ?P ! i = Some a
                    \<and> t < length (workers p') \<and> w_flag (workers p' ! t) = a
                    \<and> flag_val (heap p') a)" by auto
  have "1 \<le> int (1::nat) \<and> (1::nat) < length (threads ?P)" using l by simp
  with d obtain a1 where "flags ?P ! 1 = Some a1" "flag_val (heap p') a1"
    by blast
  with f have "flag_val (heap p') 1" by simp
  moreover have "1 \<le> int (2::nat) \<and> (2::nat) < length (threads ?P)" using l by simp
  with d obtain t2 st2 a2 where "threads ?P ! 2 = Some (t2, st2)" "flags ?P ! 2 = Some a2"
    "w_flag (workers p' ! t2) = a2" "flag_val (heap p') a2"
    by blast
  with f t have "flag_val (heap p') 2 \<and> w_flag (workers p' ! 2) = 2" by simp
  ultimately show ?thesis using r c a b by blast
qed

section \<open>Calling stop again\<close>

lemma step_keeps_stop:
  "(isStop p \<longrightarrow> isStop (step e p)) \<and> (isDone p \<longrightarrow> isDone (step e p))"
proof (cases e)
  case (Resize n)
  show ?thesis
  proof (cases "resize n p")
    case (Inl err)
    with Resize show ?thesis by (simp add: step_def)
  next
    case (Inr p')
    from resize_frame [OF Inr] have "isStop p' = isStop p" "isDone p' = isDone p"
      by (simp_all add: resize_frame_def)
    with Inr Resize show ?thesis by (simp add: step_def)
  qed
qed (simp_all add: step_def worker_step_frame ctrl_step_frame stop_call_def push_def
       thread_pool_pop_def split: prod.splits)

lemma run_keeps_stop:
  "(isStop p \<longrightarrow> isStop (run es p)) \<and> (isDone p \<longrightarrow> isDone (run es p))"
proof (induction es arbitrary: p)
  case Nil
  show ?case by simp
next
  case (Cons e es)
  from step_keeps_stop [of p e] Cons.IH [of "step e p"] show ?case by simp
qed

lemma internal_admissible: "list_all internal es \<Longrightarrow> list_all admissible es"
proof (induction es)
  case Nil
  show ?case by simp
next
  case (Cons e es)
  then show ?case by (cases e) simp_all
qed

lemma reachable_stop:
  assumes r: "reachable p" and idle: "ctl p = C_Idle" and int: "list_all internal es"
  shows "reachable (stop w es p)"
proof -
  from idle have "stop_call w p = step (Stop w) p"
    by (simp add: step_def)
  with reachable_step [OF r, of "Stop w"] have "reachable (stop_call w p)"
    by simp
  from reachable_run [OF this internal_admissible [OF int]] show ?thesis
    by (simp add: stop_def)
qed

lemma stop_sets_flag:
  "isStop (stop False es p)" "isDone (stop True es p) \<or> isStop (stop True es p)"
proof -
  have "isStop (stop_call False p)" by (simp add: stop_call_def)
  with run_keeps_stop [of "stop_call False p" es] show "isStop (stop False es p)"
    by (simp add: stop_def)
  have "isDone (stop_call True p) \<or> isStop (stop_call True p)" by (simp add: stop_call_def)
  with run_keeps_stop [of "stop_call True p" es]
  show "isDone (stop True es p) \<or> isStop (stop True es p)"
    by (auto simp: stop_def)
qed

lemma clear1_alone:
  "ctl p = C_Stop_Clear1 \<Longrightarrow>
     run (replicate (Suc (length (q p))) Ctrl) p
       = p\<lparr>q := [], discarded := discarded p @ q p, ctl := C_Stop_Notify\<rparr>"
proof (induction "q p" arbitrary: p)
  case Nil
  then show ?case
    by (simp add: step_def ctrl_step_def clear_queue_iter_def Queue_pop_def)
next
  case (Cons x xs)
  let ?p1 = "p\<lparr>q := xs, discarded := discarded p @ [x]\<rparr>"
  from Cons.hyps(2) [symmetric] Cons.prems have s: "step Ctrl p = ?p1"
    by (simp add: step_def ctrl_step_def clear_queue_iter_def Queue_pop_def)
  from Cons.prems have "xs = q ?p1" "ctl ?p1 = C_Stop_Clear1" by simp_all
  from Cons.hyps(1) [OF this] s Cons.hyps(2) [symmetric] show ?case
    by simp
qed

lemma stop_after_drain_returns:
  assumes t: "threads p = []" and f: "ctl p = C_Idle" and s: "\<not> isStop p"
  shows "ctl (stop False (replicate (length (q p) + 6) Ctrl) p) = C_Idle"
proof -
  let ?p0 = "stop_call False p"
  let ?p1 = "p\<lparr>isStop := True, ctl := C_Stop_Clear1\<rparr>"
  let ?p2 = "?p1\<lparr>q := [], discarded := discarded ?p1 @ q ?p1, ctl := C_Stop_Notify\<rparr>"
  have r: "replicate (length (q p) + 6) Ctrl
             = [Ctrl] @ replicate (Suc (length (q ?p1))) Ctrl @ [Ctrl, Ctrl, Ctrl, Ctrl]"
  proof -
    have "length (q p) + 6 = 1 + (Suc (length (q p)) + 4)" by simp
    then have "replicate (length (q p) + 6) Ctrl
                 = replicate 1 Ctrl @ replicate (Suc (length (q p))) Ctrl @ replicate 4 Ctrl"
      by (simp only: replicate_add)
    moreover have "replicate 4 Ctrl = [Ctrl, Ctrl, Ctrl, Ctrl]"
      by (simp add: numeral_eq_Suc)
    ultimately show ?thesis by simp
  qed
  from t s have a: "run [Ctrl] ?p0 = ?p1"
    by (simp add: stop_call_def size_pool_def step_def ctrl_step_def)
  have b: "run (replicate (Suc (length (q ?p1))) Ctrl) ?p1 = ?p2"
    by (rule clear1_alone) simp
  from t have c: "ctl (run [Ctrl, Ctrl, Ctrl, Ctrl] ?p2) = C_Idle"
    by (simp add: step_def ctrl_step_def clear_queue_iter_def Queue_pop_def)
  show ?thesis
    unfolding stop_def r run_append a b by (rule c)
qed


lemma idle_alone: "ctl p = C_Idle \<Longrightarrow> run (replicate n Ctrl) p = p"
  by (induction n) (simp_all add: step_def ctrl_step_def)

lemma stop_after_stop_returns:
  assumes t: "threads p = []" and f: "ctl p = C_Idle"
  shows "ctl (stop False (replicate (length (q p) + 6) Ctrl) p) = C_Idle"
proof (cases "isStop p")
  case True
  with f have "stop_call False p = p" by (simp add: stop_call_def)
  with idle_alone [OF f] f show ?thesis by (simp add: stop_def)
next
  case False
  from stop_after_drain_returns [OF t f False] show ?thesis .
qed

text \<open>
  Claim C4. Shutdown is idempotent. Take any state a pool can reach, outside a call of
  \<^verbatim>\<open>stop\<close>, and any schedule \<open>es\<close> of the pool's threads. When \<^verbatim>\<open>stop(false)\<close> has
  returned, a second \<^verbatim>\<open>stop(false)\<close>, and also a \<^verbatim>\<open>stop(true)\<close>, returns at once and
  leaves the whole state as it is. When \<^verbatim>\<open>stop(true)\<close> has returned, a second
  \<^verbatim>\<open>stop(true)\<close> returns at once and leaves the whole state as it is, no thread is
  left in the pool, and a following \<^verbatim>\<open>stop(false)\<close> never fails under any schedule
  (no join of a thread that is not joinable, no joinable thread destroyed, no access
  out of bounds) and returns when the calling thread runs on its own.
\<close>

theorem stop_idempotent:
  assumes r: "reachable p" and idle: "ctl p = C_Idle" and int: "list_all internal es"
  shows "(ctl (stop False es p) = C_Idle \<longrightarrow>
            stop_call False (stop False es p) = stop False es p
          \<and> stop_call True (stop False es p) = stop False es p)
     \<and> (ctl (stop True es p) = C_Idle \<longrightarrow>
            stop_call True (stop True es p) = stop True es p
          \<and> threads (stop True es p) = []
          \<and> (\<forall>es2 e. list_all internal es2 \<longrightarrow>
                ctl (stop False es2 (stop True es p)) \<noteq> C_Fault e)
          \<and> ctl (stop False (replicate (length (q (stop True es p)) + 6) Ctrl)
                   (stop True es p)) = C_Idle)"
proof (intro conjI impI)
  from stop_sets_flag(1) [of es p]
  show "stop_call False (stop False es p) = stop False es p"
    and "stop_call True (stop False es p) = stop False es p"
    by (simp_all add: stop_call_def)
next
  from stop_sets_flag(2) [of es p]
  show "stop_call True (stop True es p) = stop True es p"
    by (auto simp: stop_call_def)
next
  assume c: "ctl (stop True es p) = C_Idle"
  from reachable_stop [OF r idle int] have rs: "reachable (stop True es p)" .
  from reachable_pool_inv [OF rs] c stop_sets_flag(2) [of es p]
  show t: "threads (stop True es p) = []"
    by (auto simp: pool_inv_def)
  show "\<forall>es2 e. list_all internal es2 \<longrightarrow> ctl (stop False es2 (stop True es p)) \<noteq> C_Fault e"
  proof (intro allI impI)
    fix es2 e
    assume "list_all internal es2"
    from reachable_pool_inv [OF reachable_stop [OF rs c this]]
    show "ctl (stop False es2 (stop True es p)) \<noteq> C_Fault e"
      by (rule pool_inv_no_fault)
  qed
  from stop_after_stop_returns [OF t c]
  show "ctl (stop False (replicate (length (q (stop True es p)) + 6) Ctrl) (stop True es p))
          = C_Idle" .
qed

theorem stop_idempotent_witness:
  "reachable (run [Resize 2, Push 7, Push 8, Push 9] thread_pool_init)
   \<and> ctl (run [Resize 2, Push 7, Push 8, Push 9] thread_pool_init) = C_Idle
   \<and> ctl (stop False (concat (replicate 14 [Ctrl, Work 0, Work 1]))
        (run [Resize 2, Push 7, Push 8, Push 9] thread_pool_init)) = C_Idle
   \<and> stop_call False (stop False (concat (replicate 14 [Ctrl, Work 0, Work 1]))
        (run [Resize 2, Push 7, Push 8, Push 9] thread_pool_init))
      = stop False (concat (replicate 14 [Ctrl, Work 0, Work 1]))
        (run [Resize 2, Push 7, Push 8, Push 9] thread_pool_init)
   \<and> ctl (stop True (concat (replicate 14 [Ctrl, Work 0, Work 1]))
        (run [Resize 2, Push 7, Push 8, Push 9] thread_pool_init)) = C_Idle
   \<and> stop_call True (stop True (concat (replicate 14 [Ctrl, Work 0, Work 1]))
        (run [Resize 2, Push 7, Push 8, Push 9] thread_pool_init))
      = stop True (concat (replicate 14 [Ctrl, Work 0, Work 1]))
        (run [Resize 2, Push 7, Push 8, Push 9] thread_pool_init)
   \<and> threads (stop True (concat (replicate 14 [Ctrl, Work 0, Work 1]))
        (run [Resize 2, Push 7, Push 8, Push 9] thread_pool_init)) = []"
proof -
  let ?P = "run [Resize 2, Push 7, Push 8, Push 9] thread_pool_init"
  let ?ES = "concat (replicate 14 [Ctrl, Work 0, Work 1])"
  have r: "reachable ?P"
    by (rule reachable_run [OF reachable_init]) simp
  have c: "ctl ?P = C_Idle" by code_simp
  have i: "list_all internal ?ES" by code_simp
  have f: "ctl (stop False ?ES ?P) = C_Idle" by code_simp
  have t: "ctl (stop True ?ES ?P) = C_Idle" by code_simp
  from stop_idempotent [OF r c i] r c f t show ?thesis
    by blast
qed

section \<open>No task pointer is lost or duplicated\<close>

lemma sum_list_held_update:
  "t < length ws \<Longrightarrow>
     sum_list (map held (ws[t := w])) + held (ws ! t) = sum_list (map held ws) + held w"
proof (induction ws arbitrary: t)
  case Nil
  then show ?case by simp
next
  case (Cons x xs)
  show ?case
  proof (cases t)
    case 0
    then show ?thesis by simp
  next
    case (Suc u)
    with Cons.prems have "u < length xs" by simp
    from Cons.IH [OF this] Suc show ?thesis
      by (simp add: add.assoc)
  qed
qed

lemma held_in:
  "t < length ws \<Longrightarrow> held (ws ! t) = {#} \<Longrightarrow>
     sum_list (map held (ws[t := w])) = sum_list (map held ws) + held w"
  using sum_list_held_update [of t ws w] by simp

lemma held_out:
  "t < length ws \<Longrightarrow> held w = {#} \<Longrightarrow> held (ws ! t) = {#x#} \<Longrightarrow>
     add_mset x (sum_list (map held (ws[t := w]))) = sum_list (map held ws)"
  using sum_list_held_update [of t ws w] by simp

lemma held_same:
  "t < length ws \<Longrightarrow> held w = held (ws ! t) \<Longrightarrow>
     sum_list (map held (ws[t := w])) = sum_list (map held ws)"
  using sum_list_held_update [of t ws w] by simp

lemma all_tasks_pop:
  assumes t: "t < length (workers p)" and pc: "w_pc (workers p ! t) = W_Pop"
  shows "all_tasks (worker_step t p) = all_tasks p"
proof (cases "q p")
  case Nil
  with t pc have "worker_step t p =
     p\<lparr>q := [], workers := (workers p)[t := (workers p ! t)\<lparr>w_f := w_f (workers p ! t),
           w_isPop := False, w_pc := W_Lock\<rparr>]\<rparr>"
    by (simp add: worker_step_def Let_def Queue_pop_def)
  moreover from pc have "held (workers p ! t) = {#}" by (simp add: held_def)
  ultimately show ?thesis using t Nil
    by (simp add: all_tasks_def called_def held_in held_def)
next
  case (Cons x xs)
  with t pc have "worker_step t p =
     p\<lparr>q := xs, workers := (workers p)[t := (workers p ! t)\<lparr>w_f := x,
           w_isPop := True, w_pc := W_Exec\<rparr>]\<rparr>"
    by (simp add: worker_step_def Let_def Queue_pop_def)
  moreover from pc have "held (workers p ! t) = {#}" by (simp add: held_def)
  ultimately show ?thesis using t Cons
    by (simp add: all_tasks_def called_def held_in held_def)
qed

lemma all_tasks_exec:
  assumes t: "t < length (workers p)" and pc: "w_pc (workers p ! t) = W_Exec"
  shows "all_tasks (worker_step t p) = all_tasks p"
proof (cases "w_f (workers p ! t)")
  case None
  with t pc have "worker_step t p =
     p\<lparr>workers := (workers p)[t := (workers p ! t)\<lparr>w_pc := W_Fault\<rparr>]\<rparr>"
    by (simp add: worker_step_def Let_def)
  moreover from pc have "held ((workers p ! t)\<lparr>w_pc := W_Fault\<rparr>) = held (workers p ! t)"
    by (simp add: held_def)
  ultimately show ?thesis using t
    by (simp add: all_tasks_def called_def held_same)
next
  case (Some k)
  with t pc have "worker_step t p =
     p\<lparr>executed := executed p @ [(t, w_i (workers p ! t), k)],
       workers := (workers p)[t := (workers p ! t)\<lparr>w_pc := W_Check\<rparr>]\<rparr>"
    by (simp add: worker_step_def Let_def)
  moreover from pc Some have "held (workers p ! t) = {#Some k#}" by (simp add: held_def)
  moreover have "held ((workers p ! t)\<lparr>w_pc := W_Check\<rparr>) = {#}" by (simp add: held_def)
  ultimately show ?thesis using t held_out [of t "workers p" "(workers p ! t)\<lparr>w_pc := W_Check\<rparr>" "Some k"]
    by (simp add: all_tasks_def called_def)
qed

lemma all_tasks_check:
  assumes t: "t < length (workers p)" and pc: "w_pc (workers p ! t) = W_Check"
  shows "all_tasks (worker_step t p) = all_tasks p"
proof -
  from t pc have "worker_step t p =
     p\<lparr>workers := (workers p)[t := (workers p ! t)\<lparr>w_pc :=
        (if flag_val (heap p) (w_flag (workers p ! t)) then W_Retired else W_Pop)\<rparr>]\<rparr>"
    by (simp add: worker_step_def Let_def)
  moreover from pc have "held ((workers p ! t)\<lparr>w_pc :=
        (if flag_val (heap p) (w_flag (workers p ! t)) then W_Retired else W_Pop)\<rparr>)
      = held (workers p ! t)"
    by (simp add: held_def)
  ultimately show ?thesis using t
    by (simp add: all_tasks_def called_def held_same)
qed

lemma all_tasks_lock:
  assumes t: "t < length (workers p)" and pc: "w_pc (workers p ! t) = W_Lock"
  shows "all_tasks (worker_step t p) = all_tasks p"
proof -
  from t pc have "worker_step t p =
     p\<lparr>nWaiting := nWaiting p + 1,
       workers := (workers p)[t := (workers p ! t)\<lparr>w_pc := W_Wait\<rparr>]\<rparr>"
    by (simp add: worker_step_def Let_def)
  moreover from pc have "held ((workers p ! t)\<lparr>w_pc := W_Wait\<rparr>) = held (workers p ! t)"
    by (simp add: held_def)
  ultimately show ?thesis using t
    by (simp add: all_tasks_def called_def held_same)
qed

lemma all_tasks_wait:
  assumes t: "t < length (workers p)" and pc: "w_pc (workers p ! t) = W_Wait"
  shows "all_tasks (worker_step t p) = all_tasks p"
proof (cases "q p")
  case Nil
  let ?w = "(workers p ! t)\<lparr>w_f := w_f (workers p ! t), w_isPop := False\<rparr>"
  from Nil t pc have "worker_step t p =
     (if isDone p \<or> flag_val (heap p) (w_flag (workers p ! t))
      then p\<lparr>q := [], nWaiting := nWaiting p - 1,
             workers := (workers p)[t := ?w\<lparr>w_pc := W_Retired\<rparr>]\<rparr>
      else p\<lparr>q := [], workers := (workers p)[t := ?w]\<rparr>)"
    by (simp add: worker_step_def Let_def Queue_pop_def)
  moreover from pc have "held (?w\<lparr>w_pc := W_Retired\<rparr>) = held (workers p ! t)"
    "held ?w = held (workers p ! t)"
    by (simp_all add: held_def)
  ultimately show ?thesis using t Nil
    by (simp add: all_tasks_def called_def held_same)
next
  case (Cons x xs)
  with t pc have "worker_step t p =
     p\<lparr>q := xs, nWaiting := nWaiting p - 1,
       workers := (workers p)[t := (workers p ! t)\<lparr>w_f := x,
           w_isPop := True, w_pc := W_Exec\<rparr>]\<rparr>"
    by (simp add: worker_step_def Let_def Queue_pop_def)
  moreover from pc have "held (workers p ! t) = {#}" by (simp add: held_def)
  ultimately show ?thesis using t Cons
    by (simp add: all_tasks_def called_def held_in held_def)
qed

lemma all_tasks_worker_step: "all_tasks (worker_step t p) = all_tasks p"
proof (cases "t < length (workers p)")
  case False
  then show ?thesis by (simp add: worker_step_def)
next
  case True
  show ?thesis
  proof (cases "w_pc (workers p ! t)")
    case W_Retired
    with True show ?thesis by (simp add: worker_step_def Let_def)
  next
    case W_Fault
    with True show ?thesis by (simp add: worker_step_def Let_def)
  qed (simp_all add: True all_tasks_pop all_tasks_exec all_tasks_check all_tasks_lock
         all_tasks_wait)
qed


lemma all_tasks_cong:
  "q p' = q p \<Longrightarrow> workers p' = workers p \<Longrightarrow> executed p' = executed p \<Longrightarrow>
   discarded p' = discarded p \<Longrightarrow> all_tasks p' = all_tasks p"
  by (simp add: all_tasks_def called_def)

lemma all_tasks_clear_queue_iter: "all_tasks (snd (clear_queue_iter p)) = all_tasks p"
  by (cases "q p") (simp_all add: clear_queue_iter_def Queue_pop_def all_tasks_def called_def)

lemma ctrl_step_keeps_tasks:
  "ctl p \<noteq> C_Stop_Clear1 \<Longrightarrow> ctl p \<noteq> C_Stop_Clear2 \<Longrightarrow>
     q (ctrl_step p) = q p \<and> discarded (ctrl_step p) = discarded p"
  by (cases "ctl p")
     (auto simp: ctrl_step_def set_flag_def split: option.splits if_splits)

lemma all_tasks_ctrl_step: "all_tasks (ctrl_step p) = all_tasks p"
proof (cases "ctl p = C_Stop_Clear1 \<or> ctl p = C_Stop_Clear2")
  case True
  obtain b p1 where cq: "clear_queue_iter p = (b, p1)" by (cases "clear_queue_iter p")
  with all_tasks_clear_queue_iter [of p] have a: "all_tasks p1 = all_tasks p" by simp
  have "all_tasks (p1\<lparr>ctl := c\<rparr>) = all_tasks p1" for c
    by (rule all_tasks_cong) simp_all
  with True cq a show ?thesis
    by (auto simp: ctrl_step_def)
next
  case False
  with ctrl_step_keeps_tasks [of p] show ?thesis
    by (intro all_tasks_cong) (simp_all add: ctrl_step_frame)
qed

lemma all_tasks_run: "list_all internal es \<Longrightarrow> all_tasks (run es p) = all_tasks p"
proof (induction es arbitrary: p)
  case Nil
  show ?case by simp
next
  case (Cons e es)
  from Cons.prems have i: "internal e" and r: "list_all internal es" by simp_all
  from i have "all_tasks (step e p) = all_tasks p"
    by (cases e) (simp_all add: step_def all_tasks_worker_step all_tasks_ctrl_step)
  with Cons.IH [OF r, of "step e p"] show ?case by simp
qed

section \<open>The invariants of stop\<close>

lemma worker_step_empty: "q p = [] \<Longrightarrow> q (worker_step t p) = []"
  by (auto simp: worker_step_def Let_def Queue_pop_def split: wpc.splits option.splits)

lemma stop_inv_cong:
  "flags s' = flags s \<Longrightarrow> heap s' = heap s \<Longrightarrow> threads s' = threads s \<Longrightarrow>
   (q s = [] \<Longrightarrow> q s' = []) \<Longrightarrow> stop_inv F s c \<Longrightarrow> stop_inv F s' c"
  by (cases c) (auto simp: flags_set_def)

lemma flags_set_upd [simp]:
  "flags_set F m (s\<lparr>ctl := c\<rparr>) = flags_set F m s"
  "flags_set F m (s\<lparr>threads := ts\<rparr>) = flags_set F m s"
  "flags_set F m (s\<lparr>flags := fs\<rparr>) = flags_set F m s"
  "flags_set F m (s\<lparr>q := qs\<rparr>) = flags_set F m s"
  "flags_set F m (s\<lparr>discarded := ds\<rparr>) = flags_set F m s"
  by (simp_all add: flags_set_def)

lemma stop_inv_worker_step:
  "stop_inv F s (ctl s) \<Longrightarrow> stop_inv F (worker_step t s) (ctl (worker_step t s))"
  by (simp add: worker_step_frame)
     (rule stop_inv_cong [of _ s], simp_all add: worker_step_frame worker_step_empty)

lemma stop_inv_flags_step:
  assumes inv: "stop_inv F s (ctl s)" and pi: "pool_inv s" and c: "ctl s = C_Stop_Flags i n"
  shows "stop_inv F (ctrl_step s) (ctl (ctrl_step s))"
proof (cases "i < n")
  case False
  from inv c have "flags s = F" "n = int (length F)" "flags_set F (nat i) s" by simp_all
  moreover from this False have "flags_set F (length F) s"
    by (auto simp: flags_set_def)
  ultimately show ?thesis using False c by (simp add: ctrl_step_def)
next
  case True
  from inv c have fl: "flags s = F" and i0: "0 \<le> i" and n: "n = int (length F)"
    and fs: "flags_set F (nat i) s" by simp_all
  from pi have lf: "length (flags s) = length (threads s)"
    and ok: "\<forall>j < length (threads s). slot_ok s j" by (simp_all add: pool_inv_def)
  from True i0 n fl lf ok have "slot_ok s (nat i)" by simp
  then obtain a where fa: "flags s ! nat i = Some a" and al: "a < length (heap s)"
    by (auto simp: slot_ok_def)
  let ?s1 = "s\<lparr>heap := (heap s)[a := True]\<rparr>"
  from True i0 n fl fa have sf: "set_flag i s = Inr ?s1"
    by (simp add: set_flag_def)
  have "flags_set F (nat (i + 1)) ?s1"
    unfolding flags_set_def
  proof (intro allI impI)
    fix j assume j: "j < nat (i + 1) \<and> j < length F"
    show "\<exists>a. F ! j = Some a \<and> flag_val (heap ?s1) a"
    proof (cases "j = nat i")
      case True
      with fa fl al show ?thesis by (simp add: flag_val_def)
    next
      case False
      with j i0 have "j < nat i \<and> j < length F" by linarith
      with fs obtain a' where "F ! j = Some a'" "flag_val (heap s) a'"
        by (auto simp: flags_set_def)
      then show ?thesis by (simp add: flag_val_update)
    qed
  qed
  with True c sf fl i0 n show ?thesis by (simp add: ctrl_step_def)
qed

lemma stop_inv_clear_step:
  assumes inv: "stop_inv F s (ctl s)" and c: "ctl s = C_Stop_Clear1 \<or> ctl s = C_Stop_Clear2"
  shows "stop_inv F (ctrl_step s) (ctl (ctrl_step s))"
proof (cases "q s")
  case Nil
  with inv c show ?thesis
    by (auto simp: ctrl_step_def clear_queue_iter_def Queue_pop_def flags_set_def)
next
  case (Cons x xs)
  with inv c show ?thesis
    by (auto simp: ctrl_step_def clear_queue_iter_def Queue_pop_def flags_set_def)
qed

lemma stop_inv_ctrl_step:
  assumes inv: "stop_inv F s (ctl s)" and pi: "pool_inv s"
  shows "stop_inv F (ctrl_step s) (ctl (ctrl_step s))"
proof (cases "ctl s")
  case C_Idle
  with inv show ?thesis by (simp add: ctrl_step_def)
next
  case (C_Stop_Flags i n)
  from stop_inv_flags_step [OF inv pi this] show ?thesis .
next
  case C_Stop_Clear1
  with stop_inv_clear_step [OF inv] show ?thesis by simp
next
  case C_Stop_Notify
  with inv show ?thesis by (simp add: ctrl_step_def flags_set_def)
next
  case (C_Stop_Join i)
  with inv show ?thesis
    by (auto simp: ctrl_step_def flags_set_def split: option.splits)
next
  case C_Stop_Clear2
  with stop_inv_clear_step [OF inv] show ?thesis by simp
next
  case C_Stop_Free
  with inv show ?thesis by (auto simp: ctrl_step_def flags_set_def)
next
  case (C_Fault e)
  with inv show ?thesis by (simp add: ctrl_step_def)
qed


lemma worker_step_retired:
  "t < length (workers s) \<Longrightarrow> w_pc (workers s ! t) = W_Retired \<Longrightarrow>
     w_pc (workers (worker_step u s) ! t) = W_Retired"
proof (cases "u = t")
  case True
  assume "t < length (workers s)" "w_pc (workers s ! t) = W_Retired"
  with True show ?thesis by (simp add: worker_step_def Let_def)
next
  case False
  assume "w_pc (workers s ! t) = W_Retired"
  with False show ?thesis by (simp add: worker_step_other)
qed

lemma retired_upto_worker_step:
  "retired_upto T m s \<Longrightarrow> retired_upto T m (worker_step u s)"
  unfolding retired_upto_def
  by (auto simp: worker_step_frame worker_step_retired)

lemma retired_upto_cong:
  "workers s' = workers s \<Longrightarrow> retired_upto T m s' = retired_upto T m s"
  by (simp add: retired_upto_def)

lemma join_inv_worker_step:
  "join_inv T s (ctl s) \<Longrightarrow> join_inv T (worker_step u s) (ctl (worker_step u s))"
  by (cases "ctl s")
     (simp_all add: worker_step_frame tids_def retired_upto_worker_step)

lemma join_inv_join_step:
  assumes inv: "join_inv T s (ctl s)" and pi: "pool_inv s" and c: "ctl s = C_Stop_Join i"
  shows "join_inv T (ctrl_step s) (ctl (ctrl_step s))"
proof (cases "i < int (length (threads s))")
  case False
  from inv c have td: "tids s = T" and ru: "retired_upto T (nat i) s" by simp_all
  from td have "length T = length (threads s)" by (auto simp: tids_def)
  with False ru have "retired_upto T (length T) s"
    by (auto simp: retired_upto_def)
  with False c td show ?thesis
    by (simp add: ctrl_step_def tids_def retired_upto_cong [of "s\<lparr>ctl := C_Stop_Clear2\<rparr>" s])
next
  case True
  from inv c have td: "tids s = T" and ru: "retired_upto T (nat i) s" by simp_all
  from pi c have i0: "0 \<le> i" and ok: "\<forall>j < length (threads s). slot_ok s j"
    by (simp_all add: pool_inv_def)
  from True i0 ok have "slot_ok s (nat i)" by simp
  with c i0 obtain t where ti: "threads s ! nat i = Some (t, Joinable)"
    and tl: "t < length (workers s)"
    by (auto simp: slot_ok_def)
  show ?thesis
  proof (cases "w_pc (workers s ! t) = W_Retired")
    case False
    with True i0 c ti inv show ?thesis by (simp add: ctrl_step_def)
  next
    case ret: True
    let ?s' = "s\<lparr>threads := (threads s)[nat i := Some (t, Joined)], ctl := C_Stop_Join (i + 1)\<rparr>"
    from True i0 ti td have Ti: "T ! nat i = Some t"
      by (auto simp: tids_def)
    have "tids ?s' = (tids s)[nat i := Some t]"
      by (simp add: tids_def map_update)
    also from Ti td have "\<dots> = T[nat i := T ! nat i]" by simp
    finally have td': "tids ?s' = T" by simp
    have "retired_upto T (nat (i + 1)) ?s'"
      unfolding retired_upto_def
    proof (intro allI impI)
      fix j assume j: "j < nat (i + 1) \<and> j < length T"
      show "\<exists>t. T ! j = Some t \<and> t < length (workers ?s') \<and> w_pc (workers ?s' ! t) = W_Retired"
      proof (cases "j = nat i")
        case True
        with Ti tl ret show ?thesis by simp
      next
        case False
        with j i0 have "j < nat i \<and> j < length T" by linarith
        with ru show ?thesis by (auto simp: retired_upto_def)
      qed
    qed
    with td' True i0 c ti tl ret show ?thesis by (simp add: ctrl_step_def)
  qed
qed

lemma join_inv_ctrl_step:
  assumes inv: "join_inv T s (ctl s)" and pi: "pool_inv s"
  shows "join_inv T (ctrl_step s) (ctl (ctrl_step s))"
proof (cases "ctl s")
  case C_Idle
  with inv show ?thesis by (simp add: ctrl_step_def)
next
  case (C_Stop_Flags i n)
  with inv show ?thesis
    by (auto simp: ctrl_step_def set_flag_def tids_def split: option.splits)
next
  case C_Stop_Clear1
  with inv show ?thesis
    by (cases "q s") (simp_all add: ctrl_step_def clear_queue_iter_def Queue_pop_def tids_def)
next
  case C_Stop_Notify
  with inv show ?thesis by (simp add: ctrl_step_def tids_def retired_upto_def)
next
  case (C_Stop_Join i)
  from join_inv_join_step [OF inv pi this] show ?thesis .
next
  case C_Stop_Clear2
  with inv show ?thesis
    by (cases "q s")
       (simp_all add: ctrl_step_def clear_queue_iter_def Queue_pop_def tids_def retired_upto_def)
next
  case C_Stop_Free
  with inv show ?thesis by (auto simp: ctrl_step_def retired_upto_def)
next
  case (C_Fault e)
  with inv show ?thesis by (simp add: ctrl_step_def)
qed


section \<open>The result of stop(false)\<close>






section \<open>No worker faults, and a running pool has live workers\<close>

lemma tasks_ok_cong:
  "q p' = q p \<Longrightarrow> workers p' = workers p \<Longrightarrow> tasks_ok p' = tasks_ok p"
  by (simp add: tasks_ok_def)

lemma wk_ok_update:
  "list_all wk_ok ws \<Longrightarrow> wk_ok w \<Longrightarrow> list_all wk_ok (ws[t := w])"
  by (auto simp: list_all_iff dest: set_update_subset_insert [THEN subsetD])

lemma tasks_ok_nth: "tasks_ok p \<Longrightarrow> t < length (workers p) \<Longrightarrow> wk_ok (workers p ! t)"
  by (simp add: tasks_ok_def list_all_length)

lemma not_None_sym: "None \<noteq> x \<Longrightarrow> \<exists>y. x = Some y"
  by (cases x) simp_all

lemma tasks_ok_worker_step:
  assumes ok: "tasks_ok p"
  shows "tasks_ok (worker_step t p)"
proof (cases "t < length (workers p)")
  case False
  with ok show ?thesis by (simp add: worker_step_def)
next
  case True
  note w = tasks_ok_nth [OF ok True]
  from ok have nq: "None \<notin> set (q p)" and ws: "list_all wk_ok (workers p)"
    by (simp_all add: tasks_ok_def)
  show ?thesis
  proof (cases "w_pc (workers p ! t)")
    case W_Pop
    show ?thesis
    proof (cases "q p")
      case Nil
      with True W_Pop ws show ?thesis
        by (simp add: worker_step_def Let_def Queue_pop_def tasks_ok_def wk_ok_update wk_ok_def)
    next
      case (Cons x xs)
      with nq have "\<exists>y. x = Some y" "None \<notin> set xs" by (auto intro: not_None_sym)
      with True W_Pop ws Cons show ?thesis
        by (simp add: worker_step_def Let_def Queue_pop_def tasks_ok_def wk_ok_update wk_ok_def)
    qed
  next
    case W_Exec
    with w obtain k where k: "w_f (workers p ! t) = Some k" by (auto simp: wk_ok_def)
    with True W_Exec ws nq show ?thesis
      by (simp add: worker_step_def Let_def tasks_ok_def wk_ok_update wk_ok_def)
  next
    case W_Check
    with True ws nq show ?thesis
      by (simp add: worker_step_def Let_def tasks_ok_def wk_ok_update wk_ok_def)
  next
    case W_Lock
    with True ws nq show ?thesis
      by (simp add: worker_step_def Let_def tasks_ok_def wk_ok_update wk_ok_def)
  next
    case W_Wait
    show ?thesis
    proof (cases "q p")
      case Nil
      with True W_Wait ws show ?thesis
        by (simp add: worker_step_def Let_def Queue_pop_def tasks_ok_def wk_ok_update wk_ok_def)
    next
      case (Cons x xs)
      with nq have "\<exists>y. x = Some y" "None \<notin> set xs" by (auto intro: not_None_sym)
      with True W_Wait ws Cons show ?thesis
        by (simp add: worker_step_def Let_def Queue_pop_def tasks_ok_def wk_ok_update wk_ok_def)
    qed
  next
    case W_Retired
    with True ok show ?thesis by (simp add: worker_step_def Let_def)
  next
    case W_Fault
    with True ok show ?thesis by (simp add: worker_step_def Let_def)
  qed
qed

lemma tasks_ok_clear_queue_iter: "tasks_ok p \<Longrightarrow> tasks_ok (snd (clear_queue_iter p))"
  by (cases "q p") (auto simp: clear_queue_iter_def Queue_pop_def tasks_ok_def)

lemma tasks_ok_ctrl_step: "tasks_ok p \<Longrightarrow> tasks_ok (ctrl_step p)"
proof (cases "ctl p = C_Stop_Clear1 \<or> ctl p = C_Stop_Clear2")
  case True
  assume ok: "tasks_ok p"
  obtain b p1 where cq: "clear_queue_iter p = (b, p1)" by (cases "clear_queue_iter p")
  with tasks_ok_clear_queue_iter [OF ok] have a: "tasks_ok p1" by simp
  have "tasks_ok (p1\<lparr>ctl := c\<rparr>) = tasks_ok p1" for c
    by (rule tasks_ok_cong) simp_all
  with True cq a show ?thesis
    by (auto simp: ctrl_step_def)
next
  case False
  assume ok: "tasks_ok p"
  from False ctrl_step_keeps_tasks [of p] have "tasks_ok (ctrl_step p) = tasks_ok p"
    by (intro tasks_ok_cong) (simp_all add: ctrl_step_frame)
  with ok show ?thesis by simp
qed

lemma tasks_ok_set_thread: "set_thread i p = Inr p' \<Longrightarrow> tasks_ok p \<Longrightarrow> tasks_ok p'"
  by (auto simp: set_thread_def tasks_ok_def wk_ok_def split: if_splits option.splits)

lemma tasks_ok_store_flag: "store_flag i p = Inr p' \<Longrightarrow> tasks_ok p \<Longrightarrow> tasks_ok p'"
  by (auto simp: store_flag_def tasks_ok_def split: if_splits)

lemma tasks_ok_set_flag: "set_flag i p = Inr p' \<Longrightarrow> tasks_ok p \<Longrightarrow> tasks_ok p'"
  by (auto simp: set_flag_def tasks_ok_def split: if_splits option.splits)

lemma tasks_ok_detach: "detach i p = Inr p' \<Longrightarrow> tasks_ok p \<Longrightarrow> tasks_ok p'"
  by (auto simp: detach_def tasks_ok_def split: if_splits option.splits)

lemma tasks_ok_grow_loop: "grow_loop i n p = Inr p' \<Longrightarrow> tasks_ok p \<Longrightarrow> tasks_ok p'"
proof (induction i n p rule: grow_loop.induct)
  case (1 i n p)
  show ?case
  proof (cases "i < n")
    case False
    with "1.prems" show ?thesis by (simp add: grow_loop.simps)
  next
    case True
    from True "1.prems" obtain p1 p2 where
      a: "store_flag i p = Inr p1" and b: "set_thread i p1 = Inr p2"
      and c: "grow_loop (i + 1) n p2 = Inr p'"
      by (subst (asm) grow_loop.simps) (auto split: sum.splits)
    from tasks_ok_set_thread [OF b tasks_ok_store_flag [OF a "1.prems"(2)]]
    have "tasks_ok p2" .
    from "1.IH" [OF True a b c this] show ?thesis .
  qed
qed

lemma tasks_ok_shrink_loop: "shrink_loop i n p = Inr p' \<Longrightarrow> tasks_ok p \<Longrightarrow> tasks_ok p'"
proof (induction i n p rule: shrink_loop.induct)
  case (1 i n p)
  show ?case
  proof (cases "i \<ge> n")
    case False
    with "1.prems" show ?thesis by (simp add: shrink_loop.simps)
  next
    case True
    from True "1.prems" obtain p1 p2 where
      a: "set_flag i p = Inr p1" and b: "detach i p1 = Inr p2"
      and c: "shrink_loop (i - 1) n p2 = Inr p'"
      by (subst (asm) shrink_loop.simps) (auto split: sum.splits)
    from tasks_ok_detach [OF b tasks_ok_set_flag [OF a "1.prems"(2)]]
    have "tasks_ok p2" .
    from "1.IH" [OF True a b c this] show ?thesis .
  qed
qed

lemma tasks_ok_resize:
  assumes r: "resize n p = Inr p'" and ok: "tasks_ok p"
  shows "tasks_ok p'"
proof (cases "\<not> isStop p \<and> \<not> isDone p")
  case False
  with r ok show ?thesis by (auto simp: resize_def)
next
  case True
  show ?thesis
  proof (cases "int (length (threads p)) \<le> n")
    case le: True
    let ?p0 = "p\<lparr>threads := vec_resize (nat n) (threads p),
                 flags := vec_resize (nat n) (flags p)\<rparr>"
    from ok have "tasks_ok ?p0" by (simp add: tasks_ok_def)
    moreover from r True le have "grow_loop (int (length (threads p))) n ?p0 = Inr p'"
      by (simp add: resize_def)
    ultimately show ?thesis by (rule tasks_ok_grow_loop [rotated])
  next
    case False
    with r True obtain p1 where s: "shrink_loop (int (length (threads p)) - 1) n p = Inr p1"
      and e: "p' = p1\<lparr>threads := vec_resize (nat n) (threads p1),
                       flags := vec_resize (nat n) (flags p1)\<rparr>"
      by (auto simp: resize_def split: sum.splits if_splits)
    from tasks_ok_shrink_loop [OF s ok] e show ?thesis
      by (simp add: tasks_ok_def)
  qed
qed

lemma tasks_ok_step: "tasks_ok p \<Longrightarrow> tasks_ok (step e p)"
proof (cases e)
  case (Resize n)
  assume ok: "tasks_ok p"
  show ?thesis
  proof (cases "resize n p")
    case (Inl err)
    have "tasks_ok (p\<lparr>ctl := C_Fault err\<rparr>) = tasks_ok p" by (rule tasks_ok_cong) simp_all
    with ok Inl Resize show ?thesis by (simp add: step_def)
  next
    case (Inr p')
    from tasks_ok_resize [OF Inr ok] ok Inr Resize show ?thesis by (simp add: step_def)
  qed
next
  case (Stop w)
  assume ok: "tasks_ok p"
  have "tasks_ok (stop_call w p) = tasks_ok p"
    by (rule tasks_ok_cong) (simp_all add: stop_call_def)
  with ok Stop show ?thesis by (simp add: step_def)
next
  case (Push k)
  assume "tasks_ok p"
  with Push show ?thesis by (simp add: step_def push_def Queue_push_def tasks_ok_def)
next
  case Pop
  assume "tasks_ok p"
  with Pop show ?thesis
    by (cases "q p") (simp_all add: step_def thread_pool_pop_def Queue_pop_def tasks_ok_def)
qed (simp_all add: step_def tasks_ok_worker_step tasks_ok_ctrl_step)

lemma reachable_tasks_ok: "reachable p \<Longrightarrow> tasks_ok p"
proof (induction rule: reachable.induct)
  case reachable_init
  show ?case by (simp add: tasks_ok_def thread_pool_init_def)
next
  case (reachable_step p e)
  then show ?case by (simp add: tasks_ok_step)
qed

lemma worker_step_retires:
  "w_pc (workers (worker_step u p) ! u) = W_Retired \<Longrightarrow> u < length (workers p) \<Longrightarrow>
     w_pc (workers p ! u) = W_Retired \<or> isDone p \<or> flag_val (heap p) (w_flag (workers p ! u))"
  by (cases "w_pc (workers p ! u)")
     (auto simp: worker_step_def Let_def Queue_pop_def split: if_splits option.splits)

lemma live_distinct:
  "live m p \<Longrightarrow> i < m \<Longrightarrow> j < m \<Longrightarrow> flags p ! i = Some a \<Longrightarrow> flags p ! j = Some a \<Longrightarrow> i = j"
  unfolding live_def by blast

lemma live_unset:
  "live m p \<Longrightarrow> i < m \<Longrightarrow> flags p ! i = Some a \<Longrightarrow> \<not> flag_val (heap p) a"
  unfolding live_def by blast

lemma live_running:
  "live m p \<Longrightarrow> i < m \<Longrightarrow> threads p ! i = Some (t, st) \<Longrightarrow> w_pc (workers p ! t) \<noteq> W_Retired"
  unfolding live_def by blast

lemma liveI:
  "(\<And>i j a. i < m \<Longrightarrow> j < m \<Longrightarrow> flags p ! i = Some a \<Longrightarrow> flags p ! j = Some a \<Longrightarrow> i = j) \<Longrightarrow>
   (\<And>i a. i < m \<Longrightarrow> flags p ! i = Some a \<Longrightarrow> \<not> flag_val (heap p) a) \<Longrightarrow>
   (\<And>i t st. i < m \<Longrightarrow> threads p ! i = Some (t, st) \<Longrightarrow> w_pc (workers p ! t) \<noteq> W_Retired) \<Longrightarrow>
   live m p"
  unfolding live_def by blast

lemma run_inv_worker_step:
  assumes pi: "pool_inv p" and ri: "run_inv p"
  shows "run_inv (worker_step u p)"
  unfolding run_inv_def
proof (intro impI)
  assume "\<not> isStop (worker_step u p) \<and> \<not> isDone (worker_step u p)"
  then have rn: "\<not> isStop p" "\<not> isDone p" by (simp_all add: worker_step_frame)
  with ri have lv: "live (length (threads p)) p" by (simp add: run_inv_def)
  from pi have ok: "\<forall>i < length (threads p). slot_ok p i" by (simp add: pool_inv_def)
  have "w_pc (workers (worker_step u p) ! t) \<noteq> W_Retired"
    if i: "i < length (threads p)" and th: "threads p ! i = Some (t, st)" for i t st
  proof (cases "t = u")
    case False
    from live_running [OF lv i th] have "w_pc (workers p ! t) \<noteq> W_Retired" .
    with False show ?thesis by (simp add: worker_step_other)
  next
    case True
    from i ok have "slot_ok p i" by simp
    with th obtain a where fa: "flags p ! i = Some a" and tl: "t < length (workers p)"
      and wf: "w_flag (workers p ! t) = a" by (auto simp: slot_ok_def)
    from pi have "length (flags p) = length (threads p)" by (simp add: pool_inv_def)
    from live_unset [OF lv i fa] have nf: "\<not> flag_val (heap p) a" .
    from live_running [OF lv i th] have nr: "w_pc (workers p ! t) \<noteq> W_Retired" .
    show ?thesis
    proof
      assume "w_pc (workers (worker_step u p) ! t) = W_Retired"
      with True worker_step_retires [of u p] tl have
        "w_pc (workers p ! u) = W_Retired \<or> isDone p \<or> flag_val (heap p) (w_flag (workers p ! u))"
        by simp
      with True nr rn nf wf show False by simp
    qed
  qed
  then show "live (length (threads (worker_step u p))) (worker_step u p)"
    using live_distinct [OF lv] live_unset [OF lv]
    by (intro liveI) (auto simp: worker_step_frame)
qed

lemma run_inv_cong:
  "threads p' = threads p \<Longrightarrow> flags p' = flags p \<Longrightarrow> heap p' = heap p \<Longrightarrow>
   workers p' = workers p \<Longrightarrow> (isStop p \<Longrightarrow> isStop p') \<Longrightarrow> (isDone p \<Longrightarrow> isDone p') \<Longrightarrow>
   run_inv p \<Longrightarrow> run_inv p'"
  unfolding run_inv_def live_def by auto

lemma run_inv_ctrl_step:
  assumes pi: "pool_inv p" and ri: "run_inv p"
  shows "run_inv (ctrl_step p)"
proof (cases "ctl p = C_Idle")
  case True
  with ri show ?thesis by (simp add: ctrl_step_def)
next
  case False
  with pi have "isStop p \<or> isDone p"
    by (cases "ctl p") (simp_all add: pool_inv_def)
  then show ?thesis by (auto simp: run_inv_def ctrl_step_frame)
qed

lemma run_inv_stop_call: "run_inv p \<Longrightarrow> run_inv (stop_call w p)"
  by (auto simp: run_inv_def stop_call_def)

lemma run_inv_push: "run_inv p \<Longrightarrow> run_inv (push k p)"
  by (rule run_inv_cong [of _ p]) (simp_all add: push_def)

lemma run_inv_pop: "run_inv p \<Longrightarrow> run_inv (snd (thread_pool_pop p))"
  by (rule run_inv_cong [of _ p]) (simp_all add: thread_pool_pop_def split: prod.splits)


lemma grow_step_explicit:
  assumes inv: "grow_inv i n s" and lt: "i < n"
  shows "store_flag i s = Inr (s\<lparr>heap := heap s @ [False],
                           flags := (flags s)[nat i := Some (length (heap s))]\<rparr>)"
    and "set_thread i (s\<lparr>heap := heap s @ [False],
                           flags := (flags s)[nat i := Some (length (heap s))]\<rparr>)
          = Inr (s\<lparr>heap := heap s @ [False],
                   flags := (flags s)[nat i := Some (length (heap s))],
                   workers := workers s @
                     [\<lparr>w_i = i, w_flag = length (heap s), w_f = None, w_isPop = False, w_pc = W_Pop\<rparr>],
                   threads := (threads s)[nat i := Some (length (workers s), Joinable)]\<rparr>)"
proof -
  from inv have i0: "0 \<le> i"
    and lt': "length (threads s) = nat n" and lf: "length (flags s) = nat n"
    and none: "\<forall>j. nat i \<le> j \<and> j < nat n \<longrightarrow> threads s ! j = None"
    by (simp_all add: grow_inv_def)
  from i0 lt have ni: "nat i < nat n" by simp
  from i0 lt lf show "store_flag i s = Inr (s\<lparr>heap := heap s @ [False],
                           flags := (flags s)[nat i := Some (length (heap s))]\<rparr>)"
    by (simp add: store_flag_def)
  from none ni have tn: "threads s ! nat i = None" by simp
  from i0 lt lf lt' tn show "set_thread i (s\<lparr>heap := heap s @ [False],
                           flags := (flags s)[nat i := Some (length (heap s))]\<rparr>)
          = Inr (s\<lparr>heap := heap s @ [False],
                   flags := (flags s)[nat i := Some (length (heap s))],
                   workers := workers s @
                     [\<lparr>w_i = i, w_flag = length (heap s), w_f = None, w_isPop = False, w_pc = W_Pop\<rparr>],
                   threads := (threads s)[nat i := Some (length (workers s), Joinable)]\<rparr>)"
    by (simp add: set_thread_def thread_destroy_ok_def)
qed

lemma grow_live_step:
  assumes inv: "grow_inv i n s" and lt: "i < n" and lv: "live (nat i) s"
    and a: "store_flag i s = Inr s1" and b: "set_thread i s1 = Inr s2"
  shows "live (nat (i + 1)) s2"
proof -
  from inv have i0: "0 \<le> i" and idle: "ctl s = C_Idle"
    and lt': "length (threads s) = nat n" and lf: "length (flags s) = nat n"
    and ok: "\<forall>j < nat i. slot_ok s j"
    by (simp_all add: grow_inv_def)
  from i0 lt have ni: "nat i < nat n" by simp
  from grow_step_explicit [OF inv lt] a b have s2:
    "s2 = s\<lparr>heap := heap s @ [False],
                   flags := (flags s)[nat i := Some (length (heap s))],
                   workers := workers s @
                     [\<lparr>w_i = i, w_flag = length (heap s), w_f = None, w_isPop = False, w_pc = W_Pop\<rparr>],
                   threads := (threads s)[nat i := Some (length (workers s), Joinable)]\<rparr>"
    by simp
  have old: "\<exists>t a. threads s ! j = Some (t, Joinable) \<and> flags s ! j = Some a
        \<and> a < length (heap s) \<and> t < length (workers s)" if "j < nat i" for j
    using that ok idle by (auto simp: slot_ok_idle)
  have fl: "flags s2 ! j = (if j = nat i then Some (length (heap s)) else flags s ! j)"
    if "j < nat (i + 1)" for j
    using that ni lf by (simp add: s2)
  have th: "threads s2 ! j = (if j = nat i then Some (length (workers s), Joinable) else threads s ! j)"
    if "j < nat (i + 1)" for j
    using that ni lt' by (simp add: s2)
  have lo: "j < nat i" if "j < nat (i + 1)" "j \<noteq> nat i" for j
    using that i0 by linarith
  show ?thesis
  proof (rule liveI)
    fix j k a
    assume j: "j < nat (i + 1)" and k: "k < nat (i + 1)"
      and fj: "flags s2 ! j = Some a" and fk: "flags s2 ! k = Some a"
    show "j = k"
    proof (cases "j = nat i")
      case True
      with fj fl [OF j] have a: "a = length (heap s)" by simp
      show ?thesis
      proof (rule ccontr)
        assume "j \<noteq> k"
        with True have "k \<noteq> nat i" by simp
        with fk fl [OF k] old [OF lo [OF k]] a show False by auto
      qed
    next
      case False
      with fj fl [OF j] have fj': "flags s ! j = Some a" by simp
      with old [OF lo [OF j False]] have al: "a < length (heap s)" by auto
      show ?thesis
      proof (cases "k = nat i")
        case True
        with fk fl [OF k] al show ?thesis by simp
      next
        case kn: False
        with fk fl [OF k] have "flags s ! k = Some a" by simp
        from live_distinct [OF lv lo [OF j False] lo [OF k kn] fj' this] show ?thesis .
      qed
    qed
  next
    fix j a
    assume j: "j < nat (i + 1)" and fj: "flags s2 ! j = Some a"
    show "\<not> flag_val (heap s2) a"
    proof (cases "j = nat i")
      case True
      with fj fl [OF j] show ?thesis by (simp add: s2 flag_val_def)
    next
      case False
      with fj fl [OF j] have fj': "flags s ! j = Some a" by simp
      with old [OF lo [OF j False]] have al: "a < length (heap s)" by auto
      from live_unset [OF lv lo [OF j False] fj'] al show ?thesis
        by (simp add: s2 flag_val_def nth_append)
    qed
  next
    fix j t st
    assume j: "j < nat (i + 1)" and tj: "threads s2 ! j = Some (t, st)"
    show "w_pc (workers s2 ! t) \<noteq> W_Retired"
    proof (cases "j = nat i")
      case True
      with tj th [OF j] show ?thesis by (simp add: s2)
    next
      case False
      with tj th [OF j] have tj': "threads s ! j = Some (t, st)" by simp
      with old [OF lo [OF j False]] have tl: "t < length (workers s)" by auto
      from live_running [OF lv lo [OF j False] tj'] tl show ?thesis
        by (simp add: s2 nth_append)
    qed
  qed
qed

lemma grow_loop_live:
  "grow_inv i n s \<Longrightarrow> live (nat i) s \<Longrightarrow> grow_loop i n s = Inr s' \<Longrightarrow> live (nat n) s'"
proof (induction i n s rule: grow_loop.induct)
  case (1 i n s)
  show ?case
  proof (cases "i < n")
    case False
    with "1.prems" have "i = n" by (simp add: grow_inv_def)
    with "1.prems" show ?thesis by (simp add: grow_loop.simps)
  next
    case True
    from grow_step [OF "1.prems"(1) True] obtain s1 s2 where
      a: "store_flag i s = Inr s1" and b: "set_thread i s1 = Inr s2"
      and c: "grow_inv (i + 1) n s2" by blast
    from True a b "1.prems"(3) have d: "grow_loop (i + 1) n s2 = Inr s'"
      by (subst (asm) grow_loop.simps) simp
    from grow_live_step [OF "1.prems"(1) True "1.prems"(2) a b] have "live (nat (i + 1)) s2" .
    from "1.IH" [OF True a b c this d] show ?thesis .
  qed
qed


lemma shrink_live_step:
  assumes inv: "shrink_inv i s" and i0: "0 \<le> i" and lv: "live (nat (i + 1)) s"
    and a: "set_flag i s = Inr s1" and b: "detach i s1 = Inr s2"
  shows "live (nat i) s2"
proof -
  from inv have il: "i < int (length (threads s))" and idle: "ctl s = C_Idle"
    and lf: "length (flags s) = length (threads s)"
    and ok: "\<forall>j. int j \<le> i \<longrightarrow> slot_ok s j"
    by (simp_all add: shrink_inv_def)
  from i0 ok have "slot_ok s (nat i)" by simp
  with idle obtain t a where ti: "threads s ! nat i = Some (t, Joinable)"
    and fi: "flags s ! nat i = Some a"
    by (auto simp: slot_ok_idle)
  from i0 il lf fi a have s1: "s1 = s\<lparr>heap := (heap s)[a := True]\<rparr>"
    by (simp add: set_flag_def)
  from i0 il ti b have s2: "s2 = s\<lparr>heap := (heap s)[a := True],
                                   threads := (threads s)[nat i := Some (t, Detached)]\<rparr>"
    by (simp add: detach_def s1)
  have up: "j < nat (i + 1)" "j \<noteq> nat i" if "j < nat i" for j
    using that i0 by linarith+
  from i0 have ii: "nat i < nat (i + 1)" by simp
  show ?thesis
  proof (rule liveI)
    fix j k b
    assume "j < nat i" "k < nat i" "flags s2 ! j = Some b" "flags s2 ! k = Some b"
    with live_distinct [OF lv up(1) up(1), of j k b] show "j = k" by (simp add: s2)
  next
    fix j b
    assume j: "j < nat i" and fj: "flags s2 ! j = Some b"
    then have fj': "flags s ! j = Some b" by (simp add: s2)
    from live_distinct [OF lv up(1) [OF j] ii fj'] fi up(2) [OF j] have "b \<noteq> a" by auto
    with live_unset [OF lv up(1) [OF j] fj'] show "\<not> flag_val (heap s2) b"
      by (simp add: s2 flag_val_def)
  next
    fix j u st
    assume j: "j < nat i" and tj: "threads s2 ! j = Some (u, st)"
    with up(2) [OF j] have "threads s ! j = Some (u, st)" by (simp add: s2)
    from live_running [OF lv up(1) [OF j] this] show "w_pc (workers s2 ! u) \<noteq> W_Retired"
      by (simp add: s2)
  qed
qed

lemma shrink_loop_live:
  "shrink_inv i s \<Longrightarrow> live (nat (i + 1)) s \<Longrightarrow> 0 \<le> n \<Longrightarrow> n - 1 \<le> i \<Longrightarrow>
     shrink_loop i n s = Inr s' \<Longrightarrow> live (nat n) s'"
proof (induction i n s rule: shrink_loop.induct)
  case (1 i n s)
  show ?case
  proof (cases "i \<ge> n")
    case False
    with "1.prems" have "i + 1 = n" by simp
    with "1.prems" False show ?thesis by (simp add: shrink_loop.simps)
  next
    case True
    with "1.prems" have i0: "0 \<le> i" by simp
    from shrink_step [OF "1.prems"(1) i0] obtain s1 s2 where
      a: "set_flag i s = Inr s1" and b: "detach i s1 = Inr s2"
      and c: "shrink_inv (i - 1) s2" by blast
    from True a b "1.prems"(5) have d: "shrink_loop (i - 1) n s2 = Inr s'"
      by (subst (asm) shrink_loop.simps) simp
    from shrink_live_step [OF "1.prems"(1) i0 "1.prems"(2) a b]
    have "live (nat (i - 1 + 1)) s2" by simp
    moreover from True have "n - 1 \<le> i - 1" by simp
    ultimately show ?thesis using "1.IH" [OF True a b c _ "1.prems"(3) _ d] by blast
  qed
qed

lemma run_inv_resize:
  assumes pi: "pool_inv p" and idle: "ctl p = C_Idle" and ri: "run_inv p" and n0: "0 \<le> n"
    and r: "resize n p = Inr p'"
  shows "run_inv p'"
proof (cases "\<not> isStop p \<and> \<not> isDone p")
  case False
  with r ri show ?thesis by (auto simp: resize_def)
next
  case True
  with ri have lv: "live (length (threads p)) p" by (simp add: run_inv_def)
  from pi have lf: "length (flags p) = length (threads p)"
    and ok: "\<forall>i < length (threads p). slot_ok p i" by (simp_all add: pool_inv_def)
  show ?thesis
  proof (cases "int (length (threads p)) \<le> n")
    case le: True
    let ?p0 = "p\<lparr>threads := vec_resize (nat n) (threads p),
                 flags := vec_resize (nat n) (flags p)\<rparr>"
    have a: "slot_ok ?p0 j" if "j < nat (int (length (threads p)))" for j
    proof -
      from that le have "j < length (threads p)" "j < nat n" by simp_all
      with lf ok slot_ok_cong [of ?p0 j p] show ?thesis
        by (simp add: vec_resize_nth_old)
    qed
    have b: "threads ?p0 ! j = None" if "nat (int (length (threads p))) \<le> j \<and> j < nat n" for j
      using that by (simp add: vec_resize_nth_new)
    from le idle a b have gi: "grow_inv (int (length (threads p))) n ?p0"
      unfolding grow_inv_def by (simp add: length_vec_resize)
    have l0: "live (nat (int (length (threads p)))) ?p0"
    proof (rule liveI)
      fix i j a
      assume "i < nat (int (length (threads p)))" "j < nat (int (length (threads p)))"
        "flags ?p0 ! i = Some a" "flags ?p0 ! j = Some a"
      with le lf live_distinct [OF lv, of i j a] show "i = j"
        by (simp add: vec_resize_nth_old)
    next
      fix i a
      assume "i < nat (int (length (threads p)))" "flags ?p0 ! i = Some a"
      with le lf live_unset [OF lv, of i a] show "\<not> flag_val (heap ?p0) a"
        by (simp add: vec_resize_nth_old)
    next
      fix i t st
      assume "i < nat (int (length (threads p)))" "threads ?p0 ! i = Some (t, st)"
      with le live_running [OF lv, of i t st] show "w_pc (workers ?p0 ! t) \<noteq> W_Retired"
        by (simp add: vec_resize_nth_old)
    qed
    from r True le have g: "grow_loop (int (length (threads p))) n ?p0 = Inr p'"
      by (simp add: resize_def)
    from grow_loop_inv [OF gi] g have "grow_inv n n p'" by simp
    then have "length (threads p') = nat n" by (simp add: grow_inv_def)
    with grow_loop_live [OF gi l0 g] show ?thesis by (simp add: run_inv_def)
  next
    case False
    then have gt: "n < int (length (threads p))" by simp
    from lf ok idle have si: "shrink_inv (int (length (threads p)) - 1) p"
      by (auto simp: shrink_inv_def)
    from r True False obtain p1 where s: "shrink_loop (int (length (threads p)) - 1) n p = Inr p1"
      and e: "p' = p1\<lparr>threads := vec_resize (nat n) (threads p1),
                       flags := vec_resize (nat n) (flags p1)\<rparr>"
      by (auto simp: resize_def split: sum.splits if_splits)
    from lv have "live (nat (int (length (threads p)) - 1 + 1)) p" by simp
    from shrink_loop_live [OF si this n0 _ s] gt have l1: "live (nat n) p1" by simp
    from shrink_loop_inv [OF si n0] gt s have ln: "length (threads p1) = length (threads p)"
      and lf1: "length (flags p1) = length (threads p1)"
      by (auto simp: shrink_inv_def)
    have "live (nat n) p'"
    proof (rule liveI)
      fix i j a
      assume "i < nat n" "j < nat n" "flags p' ! i = Some a" "flags p' ! j = Some a"
      with gt ln lf1 live_distinct [OF l1, of i j a] show "i = j"
        by (simp add: e vec_resize_nth_old)
    next
      fix i a
      assume "i < nat n" "flags p' ! i = Some a"
      with gt ln lf1 live_unset [OF l1, of i a] show "\<not> flag_val (heap p') a"
        by (simp add: e vec_resize_nth_old)
    next
      fix i t st
      assume "i < nat n" "threads p' ! i = Some (t, st)"
      with gt ln live_running [OF l1, of i t st] show "w_pc (workers p' ! t) \<noteq> W_Retired"
        by (simp add: e vec_resize_nth_old)
    qed
    then show ?thesis by (simp add: run_inv_def e length_vec_resize)
  qed
qed

lemma run_inv_step:
  assumes pi: "pool_inv p" and ri: "run_inv p" and adm: "admissible e"
  shows "run_inv (step e p)"
proof (cases e)
  case (Resize n)
  with adm have n0: "0 \<le> n" by simp
  show ?thesis
  proof (cases "ctl p = C_Idle")
    case False
    with ri Resize show ?thesis by (simp add: step_def)
  next
    case True
    from resize_ok [OF pi True n0] obtain p' where r: "resize n p = Inr p'" by blast
    from run_inv_resize [OF pi True ri n0 r] r True Resize show ?thesis
      by (simp add: step_def)
  qed
qed (simp_all add: step_def pi ri run_inv_worker_step run_inv_ctrl_step run_inv_stop_call
       run_inv_push run_inv_pop)

lemma reachable_run_inv: "reachable p \<Longrightarrow> run_inv p"
proof (induction rule: reachable.induct)
  case reachable_init
  show ?case by (simp add: run_inv_def live_def thread_pool_init_def)
next
  case (reachable_step p e)
  from run_inv_step [OF reachable_pool_inv [OF reachable_step.hyps(1)] reachable_step.IH
    reachable_step.hyps(2)]
  show ?case .
qed

section \<open>The destructor and stop(true)\<close>

lemma worker_step_retires_empty:
  "w_pc (workers (worker_step u s) ! u) = W_Retired \<Longrightarrow> u < length (workers s) \<Longrightarrow>
     w_pc (workers s ! u) = W_Retired \<or> flag_val (heap s) (w_flag (workers s ! u)) \<or> q s = []"
  by (cases "w_pc (workers s ! u)"; cases "q s")
     (auto simp: worker_step_def Let_def Queue_pop_def split: if_splits option.splits)

lemma managed_unset_reachable:
  assumes pi: "pool_inv p" and ri: "run_inv p" and rn: "\<not> isStop p" "\<not> isDone p"
  shows "managed_unset p"
  unfolding managed_unset_def
proof (intro allI impI)
  fix t assume "Some t \<in> set (tids p)"
  then obtain i where i0: "i < length (tids p)" and ti0: "tids p ! i = Some t"
    by (auto simp: in_set_conv_nth)
  from i0 have i: "i < length (threads p)" by (simp add: tids_def)
  with ti0 have ti: "map_option fst (threads p ! i) = Some t" by (simp add: tids_def)
  from pi i have "slot_ok p i" and lf: "length (flags p) = length (threads p)"
    by (simp_all add: pool_inv_def)
  with ti obtain st a where th: "threads p ! i = Some (t, st)" and fa: "flags p ! i = Some a"
    and tl: "t < length (workers p)" and wf: "w_flag (workers p ! t) = a"
    by (auto simp: slot_ok_def)
  from ri rn have lv: "live (length (threads p)) p" by (simp add: run_inv_def)
  from live_unset [OF lv i fa] live_running [OF lv i th] tl wf
  show "t < length (workers p) \<and> \<not> flag_val (heap p) (w_flag (workers p ! t))
        \<and> w_pc (workers p ! t) \<noteq> W_Retired" by simp
qed

lemma drain_inv_worker_step:
  assumes di: "drain_inv p s" and mu: "managed_unset p"
  shows "drain_inv p (worker_step u s)"
proof -
  from di have dn: "isDone s" and hp: "heap s = heap p"
    and lw: "length (workers s) = length (workers p)"
    and wf: "\<forall>t. w_flag (workers s ! t) = w_flag (workers p ! t)"
    and d2: "\<forall>t < length (workers p). Some t \<notin> set (tids p) \<longrightarrow> w_pc (workers s ! t) = W_Retired"
    and d3: "q s = [] \<or> (\<forall>t. Some t \<in> set (tids p) \<longrightarrow> w_pc (workers s ! t) \<noteq> W_Retired)"
    and d5: "threads p \<noteq> [] \<longrightarrow> discarded s = discarded p"
    and d6: "(case ctl s of
            C_Stop_Flags i n \<Rightarrow> False
          | C_Stop_Clear1 \<Rightarrow> False
          | C_Stop_Free \<Rightarrow> q s = []
          | C_Idle \<Rightarrow> q s = []
          | _ \<Rightarrow> True)"
    by (simp_all add: drain_inv_def)
  let ?s' = "worker_step u s"
  have e2: "\<forall>t < length (workers p). Some t \<notin> set (tids p) \<longrightarrow> w_pc (workers ?s' ! t) = W_Retired"
    using d2 lw by (auto intro: worker_step_retired)
  have e3: "q ?s' = [] \<or> (\<forall>t. Some t \<in> set (tids p) \<longrightarrow> w_pc (workers ?s' ! t) \<noteq> W_Retired)"
  proof (cases "q s = []")
    case True
    then show ?thesis by (simp add: worker_step_empty)
  next
    case False
    with d3 have nr: "\<forall>t. Some t \<in> set (tids p) \<longrightarrow> w_pc (workers s ! t) \<noteq> W_Retired" by simp
    have "w_pc (workers ?s' ! t) \<noteq> W_Retired" if m: "Some t \<in> set (tids p)" for t
    proof (cases "t = u")
      case ne: False
      with nr m show ?thesis by (simp add: worker_step_other)
    next
      case True
      from mu m have tl: "t < length (workers p)"
        and nf: "\<not> flag_val (heap p) (w_flag (workers p ! t))"
        by (simp_all add: managed_unset_def)
      show ?thesis
      proof
        assume "w_pc (workers ?s' ! t) = W_Retired"
        with True worker_step_retires_empty [of u s] tl lw
        have "w_pc (workers s ! u) = W_Retired \<or> flag_val (heap s) (w_flag (workers s ! u))
              \<or> q s = []" by simp
        with True nr m nf hp wf False show False by simp
      qed
    qed
    then show ?thesis by blast
  qed
  have e6: "(case ctl ?s' of
            C_Stop_Flags i n \<Rightarrow> False
          | C_Stop_Clear1 \<Rightarrow> False
          | C_Stop_Free \<Rightarrow> q ?s' = []
          | C_Idle \<Rightarrow> q ?s' = []
          | _ \<Rightarrow> True)"
    using d6 by (cases "ctl s") (simp_all add: worker_step_frame worker_step_empty)
  from dn hp lw wf d5 e2 e3 e6 show ?thesis
    unfolding drain_inv_def
    by (simp add: worker_step_frame worker_step_consts)
qed


lemma drain_inv_clear2:
  assumes di: "drain_inv p s" and ji: "join_inv (tids p) s (ctl s)" and c: "ctl s = C_Stop_Clear2"
  shows "drain_inv p (ctrl_step s)"
proof (cases "q s")
  case Nil
  with c have "ctrl_step s = s\<lparr>ctl := C_Stop_Free\<rparr>"
    by (simp add: ctrl_step_def clear_queue_iter_def Queue_pop_def)
  with di Nil show ?thesis by (simp add: drain_inv_def)
next
  case (Cons x xs)
  with c have cs: "ctrl_step s = s\<lparr>q := xs, discarded := discarded s @ [x]\<rparr>"
    by (simp add: ctrl_step_def clear_queue_iter_def Queue_pop_def)
  from di Cons have nr: "\<forall>t. Some t \<in> set (tids p) \<longrightarrow> w_pc (workers s ! t) \<noteq> W_Retired"
    by (simp add: drain_inv_def)
  have "threads p = []"
  proof (rule ccontr)
    assume "threads p \<noteq> []"
    then have l: "0 < length (tids p)" by (simp add: tids_def)
    from ji c have "retired_upto (tids p) (length (tids p)) s" by simp
    with l obtain t where "tids p ! 0 = Some t" "w_pc (workers s ! t) = W_Retired"
      by (auto simp: retired_upto_def)
    moreover from this l have "Some t \<in> set (tids p)" by (metis nth_mem)
    ultimately show False using nr by simp
  qed
  with di c nr show ?thesis
    by (simp add: drain_inv_def cs)
qed

lemma drain_inv_ctrl_step:
  assumes di: "drain_inv p s" and ji: "join_inv (tids p) s (ctl s)"
  shows "drain_inv p (ctrl_step s)"
proof (cases "ctl s")
  case C_Idle
  with di show ?thesis by (simp add: ctrl_step_def)
next
  case (C_Stop_Flags i n)
  with di show ?thesis by (simp add: drain_inv_def)
next
  case C_Stop_Clear1
  with di show ?thesis by (simp add: drain_inv_def)
next
  case C_Stop_Notify
  with di show ?thesis by (simp add: ctrl_step_def drain_inv_def)
next
  case (C_Stop_Join i)
  with di show ?thesis
    by (auto simp: ctrl_step_def drain_inv_def split: option.splits)
next
  case C_Stop_Clear2
  from drain_inv_clear2 [OF di ji this] show ?thesis .
next
  case C_Stop_Free
  with di show ?thesis by (auto simp: ctrl_step_def drain_inv_def)
next
  case (C_Fault e)
  with di show ?thesis by (simp add: ctrl_step_def)
qed

lemma drain_inv_run:
  "list_all internal es \<Longrightarrow> managed_unset p \<Longrightarrow> pool_inv s \<Longrightarrow>
   join_inv (tids p) s (ctl s) \<Longrightarrow> drain_inv p s \<Longrightarrow>
     drain_inv p (run es s) \<and> join_inv (tids p) (run es s) (ctl (run es s))"
proof (induction es arbitrary: s)
  case Nil
  then show ?case by simp
next
  case (Cons e es)
  from Cons.prems have i: "internal e" and r: "list_all internal es" by simp_all
  from i have adm: "admissible e" by (cases e) simp_all
  from i Cons.prems have a: "join_inv (tids p) (step e s) (ctl (step e s))"
    by (cases e) (simp_all add: step_def join_inv_worker_step join_inv_ctrl_step)
  from i Cons.prems have b: "drain_inv p (step e s)"
    by (cases e) (simp_all add: step_def drain_inv_worker_step drain_inv_ctrl_step)
  from Cons.IH [OF r Cons.prems(2) pool_inv_step [OF Cons.prems(3) adm] a b] show ?case
    by simp
qed

lemma all_retired_held:
  "\<forall>t < length ws. w_pc (ws ! t) = W_Retired \<Longrightarrow> sum_list (map held ws) = {#}"
proof (induction ws)
  case Nil
  show ?case by simp
next
  case (Cons w ws)
  from Cons.prems have "w_pc w = W_Retired" by auto
  moreover from Cons.prems have "\<forall>t < length ws. w_pc (ws ! t) = W_Retired" by auto
  ultimately show ?case using Cons.IH by (simp add: held_def)
qed


lemma retired_run_executed:
  "list_all internal es \<Longrightarrow> \<forall>t < length (workers s). w_pc (workers s ! t) = W_Retired \<Longrightarrow>
     executed (run es s) = executed s \<and> workers (run es s) = workers s"
proof (induction es arbitrary: s)
  case Nil
  show ?case by simp
next
  case (Cons e es)
  from Cons.prems have i: "internal e" and r: "list_all internal es" by simp_all
  have "executed (step e s) = executed s \<and> workers (step e s) = workers s"
  proof (cases e)
    case (Work u)
    from Cons.prems(2) have "worker_step u s = s"
      by (simp add: worker_step_def Let_def)
    with Work show ?thesis by (simp add: step_def)
  next
    case Ctrl
    then show ?thesis by (simp add: step_def ctrl_step_frame)
  qed (use i in simp_all)
  with Cons.IH [OF r, of "step e s"] Cons.prems(2) show ?case by simp
qed

lemma drain_post:
  assumes pi: "pool_inv p" and ri: "run_inv p" and idle: "ctl p = C_Idle"
    and rn: "\<not> isStop p" "\<not> isDone p"
    and um: "\<forall>t < length (workers p). Some t \<notin> set (tids p) \<longrightarrow> w_pc (workers p ! t) = W_Retired"
    and int: "list_all internal es" and ret: "ctl (stop True es p) = C_Idle"
  shows "q (stop True es p) = []"
    and "\<forall>t < length (workers (stop True es p)). w_pc (workers (stop True es p) ! t) = W_Retired"
    and "threads p \<noteq> [] \<longrightarrow> discarded (stop True es p) = discarded p"
    and "all_tasks (stop True es p) = all_tasks p"
proof -
  let ?c = "stop_call True p"
  let ?d = "stop True es p"
  from rn have s0: "?c = p\<lparr>isDone := True, ctl := C_Stop_Notify\<rparr>"
    by (simp add: stop_call_def)
  note mu = managed_unset_reachable [OF pi ri rn]
  from pool_inv_stop_call [OF pi idle] have p0: "pool_inv ?c" .
  have j0: "join_inv (tids p) ?c (ctl ?c)" by (simp add: s0 tids_def)
  from um mu have d0: "drain_inv p ?c"
    by (simp add: drain_inv_def s0 managed_unset_def)
  from drain_inv_run [OF int mu p0 j0 d0] have di: "drain_inv p ?d"
    and ji: "join_inv (tids p) ?d (ctl ?d)" by (simp_all add: stop_def)
  from di ret show "q ?d = []" by (simp add: drain_inv_def)
  from di show "threads p \<noteq> [] \<longrightarrow> discarded ?d = discarded p" by (simp add: drain_inv_def)
  from ji ret have ru: "retired_upto (tids p) (length (tids p)) ?d" by simp
  from di have lw: "length (workers ?d) = length (workers p)"
    and d2: "\<forall>t < length (workers p). Some t \<notin> set (tids p) \<longrightarrow> w_pc (workers ?d ! t) = W_Retired"
    by (simp_all add: drain_inv_def)
  show "\<forall>t < length (workers ?d). w_pc (workers ?d ! t) = W_Retired"
  proof (intro allI impI)
    fix t assume t: "t < length (workers ?d)"
    show "w_pc (workers ?d ! t) = W_Retired"
    proof (cases "Some t \<in> set (tids p)")
      case False
      with d2 t lw show ?thesis by simp
    next
      case True
      then obtain j where "j < length (tids p)" "tids p ! j = Some t"
        by (auto simp: in_set_conv_nth)
      with ru show ?thesis by (auto simp: retired_upto_def)
    qed
  qed
  from all_tasks_run [OF int, of ?c] show "all_tasks ?d = all_tasks p"
    by (simp add: stop_def s0 all_tasks_def called_def)
qed

lemma dtor_facts:
  assumes r: "reachable p" and idle: "ctl p = C_Idle"
    and rn: "\<not> isStop p" "\<not> isDone p"
    and um: "\<forall>t < length (workers p). Some t \<notin> set (tids p) \<longrightarrow> w_pc (workers p ! t) = W_Retired"
    and int: "list_all internal es" and ret: "ctl (thread_pool_dtor es p) = C_Idle"
  shows "thread_pool_dtor es p = stop True es p
     \<and> q (thread_pool_dtor es p) = []
     \<and> threads (thread_pool_dtor es p) = []
     \<and> (\<forall>t < length (workers (thread_pool_dtor es p)).
           w_pc (workers (thread_pool_dtor es p) ! t) = W_Retired)
     \<and> (threads p \<noteq> [] \<longrightarrow>
           called (thread_pool_dtor es p)
             = called p + mset (q p) + sum_list (map held (workers p))
         \<and> discarded (thread_pool_dtor es p) = discarded p)
     \<and> (threads p = [] \<longrightarrow>
           executed (thread_pool_dtor es p) = executed p
         \<and> mset (discarded (thread_pool_dtor es p)) = mset (discarded p) + mset (q p))"
proof -
  let ?s = "stop True es p"
  have eq: "thread_pool_dtor es p = ?s" by (simp add: thread_pool_dtor_def)
  note pi = reachable_pool_inv [OF r]
  from ret have ret': "ctl ?s = C_Idle" by (simp add: eq)
  note post = drain_post [OF pi reachable_run_inv [OF r] idle rn um int ret']
  from reachable_pool_inv [OF reachable_stop [OF r idle int, of True]] ret'
    stop_sets_flag(2) [of es p]
  have th: "threads ?s = []" by (auto simp: pool_inv_def)
  from all_retired_held [OF post(2)] have h: "sum_list (map held (workers ?s)) = {#}" .
  from post(4) post(1) h
  have cons: "called ?s + mset (discarded ?s)
                = mset (q p) + sum_list (map held (workers p)) + called p + mset (discarded p)"
    by (simp add: all_tasks_def)
  have a: "called ?s = called p + mset (q p) + sum_list (map held (workers p))
           \<and> discarded ?s = discarded p" if "threads p \<noteq> []"
  proof -
    from that post(3) have d: "discarded ?s = discarded p" by simp
    with cons show ?thesis by (simp add: ac_simps)
  qed
  have b: "executed ?s = executed p \<and> mset (discarded ?s) = mset (discarded p) + mset (q p)"
    if "threads p = []"
  proof -
    from that have "tids p = []" by (simp add: tids_def)
    with um have ar: "\<forall>t < length (workers (stop_call True p)).
                        w_pc (workers (stop_call True p) ! t) = W_Retired"
      by (simp add: stop_call_def)
    from retired_run_executed [OF int ar] have e: "executed ?s = executed p"
      by (simp add: stop_def stop_call_def)
    from um \<open>tids p = []\<close> have "sum_list (map held (workers p)) = {#}"
      by (intro all_retired_held) simp
    with cons e show ?thesis by (simp add: called_def)
  qed
  from eq post(1) th post(2) a b show ?thesis by simp
qed


section \<open>stop returns when its threads are scheduled\<close>

lemma sum_list_rank_update:
  "t < length ws \<Longrightarrow>
     sum_list (map (\<lambda>w. wrank (w_pc w)) (ws[t := w'])) + wrank (w_pc (ws ! t))
       = sum_list (map (\<lambda>w. wrank (w_pc w)) ws) + wrank (w_pc w')"
proof (induction ws arbitrary: t)
  case Nil
  then show ?case by simp
next
  case (Cons x xs)
  show ?case
  proof (cases t)
    case 0
    then show ?thesis by simp
  next
    case (Suc u)
    with Cons.prems have "u < length xs" by simp
    from Cons.IH [OF this] Suc show ?thesis by simp
  qed
qed

lemma crank_cong: "ctl s' = ctl s \<Longrightarrow> threads s' = threads s \<Longrightarrow> crank s' = crank s"
  by (simp add: crank_def)

lemma mu_worker:
  assumes t: "t < length (workers s)"
    and e: "s' = s\<lparr>q := Q, nWaiting := N, executed := E, workers := (workers s)[t := w']\<rparr>"
  shows "mu s' + wrank (w_pc (workers s ! t)) + 5 * length (q s)
           = mu s + wrank (w_pc w') + 5 * length Q"
proof -
  have "crank s' = crank s" by (rule crank_cong) (simp_all add: e)
  with sum_list_rank_update [OF t, of w'] show ?thesis
    by (simp add: mu_def e)
qed

lemma worker_progress:
  assumes t: "t < length (workers s)" and ok: "wk_ok (workers s ! t)"
    and nr: "w_pc (workers s ! t) \<noteq> W_Retired"
    and go: "isDone s \<or> flag_val (heap s) (w_flag (workers s ! t))"
  shows "mu (worker_step t s) < mu s"
proof -
  let ?w = "workers s ! t"
  note m = mu_worker [OF t]
  show ?thesis
  proof (cases "w_pc ?w")
    case W_Pop
    show ?thesis
    proof (cases "q s")
      case Nil
      with t W_Pop have "worker_step t s = s\<lparr>q := [], nWaiting := nWaiting s, executed := executed s,
          workers := (workers s)[t := ?w\<lparr>w_f := w_f ?w, w_isPop := False, w_pc := W_Lock\<rparr>]\<rparr>"
        by (simp add: worker_step_def Let_def Queue_pop_def)
      from m [OF this] W_Pop Nil show ?thesis by simp
    next
      case (Cons x xs)
      with t W_Pop have "worker_step t s = s\<lparr>q := xs, nWaiting := nWaiting s, executed := executed s,
          workers := (workers s)[t := ?w\<lparr>w_f := x, w_isPop := True, w_pc := W_Exec\<rparr>]\<rparr>"
        by (simp add: worker_step_def Let_def Queue_pop_def)
      from m [OF this] W_Pop Cons show ?thesis by simp
    qed
  next
    case W_Exec
    with ok obtain k where k: "w_f ?w = Some k" by (auto simp: wk_ok_def)
    with t W_Exec have "worker_step t s = s\<lparr>q := q s, nWaiting := nWaiting s,
          executed := executed s @ [(t, w_i ?w, k)],
          workers := (workers s)[t := ?w\<lparr>w_pc := W_Check\<rparr>]\<rparr>"
      by (simp add: worker_step_def Let_def)
    from m [OF this] W_Exec show ?thesis by simp
  next
    case W_Check
    with t have "worker_step t s = s\<lparr>q := q s, nWaiting := nWaiting s, executed := executed s,
          workers := (workers s)[t := ?w\<lparr>w_pc :=
             (if flag_val (heap s) (w_flag ?w) then W_Retired else W_Pop)\<rparr>]\<rparr>"
      by (simp add: worker_step_def Let_def)
    from m [OF this] W_Check show ?thesis by (simp split: if_splits)
  next
    case W_Lock
    with t have "worker_step t s = s\<lparr>q := q s, nWaiting := nWaiting s + 1, executed := executed s,
          workers := (workers s)[t := ?w\<lparr>w_pc := W_Wait\<rparr>]\<rparr>"
      by (simp add: worker_step_def Let_def)
    from m [OF this] W_Lock show ?thesis by simp
  next
    case W_Wait
    show ?thesis
    proof (cases "q s")
      case Nil
      with t W_Wait go have "worker_step t s = s\<lparr>q := [], nWaiting := nWaiting s - 1,
          executed := executed s,
          workers := (workers s)[t := ?w\<lparr>w_f := w_f ?w, w_isPop := False, w_pc := W_Retired\<rparr>]\<rparr>"
        by (auto simp: worker_step_def Let_def Queue_pop_def)
      from m [OF this] W_Wait Nil show ?thesis by simp
    next
      case (Cons x xs)
      with t W_Wait have "worker_step t s = s\<lparr>q := xs, nWaiting := nWaiting s - 1,
          executed := executed s,
          workers := (workers s)[t := ?w\<lparr>w_f := x, w_isPop := True, w_pc := W_Exec\<rparr>]\<rparr>"
        by (simp add: worker_step_def Let_def Queue_pop_def)
      from m [OF this] W_Wait Cons show ?thesis by simp
    qed
  next
    case W_Retired
    with nr show ?thesis by simp
  next
    case W_Fault
    with ok show ?thesis by (simp add: wk_ok_def)
  qed
qed


lemma mu_ctrl:
  assumes "workers s' = workers s"
  shows "mu s' + 5 * length (q s) + crank s = mu s + 5 * length (q s') + crank s'"
  using assms by (simp add: mu_def)

lemma clear_progress:
  assumes c: "ctl s = C_Stop_Clear1 \<or> ctl s = C_Stop_Clear2"
  shows "mu (ctrl_step s) < mu s"
proof (cases "q s")
  case Nil
  with c have "ctrl_step s = s\<lparr>ctl := (if ctl s = C_Stop_Clear1 then C_Stop_Notify else C_Stop_Free)\<rparr>"
    by (auto simp: ctrl_step_def clear_queue_iter_def Queue_pop_def)
  with mu_ctrl [of "ctrl_step s" s] c show ?thesis
    by (auto simp: crank_def)
next
  case (Cons x xs)
  with c have "ctrl_step s = s\<lparr>q := xs, discarded := discarded s @ [x]\<rparr>"
    by (auto simp: ctrl_step_def clear_queue_iter_def Queue_pop_def)
  with mu_ctrl [of "ctrl_step s" s] Cons show ?thesis
    by (simp add: crank_def)
qed

lemma flags_progress:
  assumes pi: "pool_inv s" and c: "ctl s = C_Stop_Flags i n"
  shows "mu (ctrl_step s) < mu s"
proof (cases "i < n")
  case False
  with c have "ctrl_step s = s\<lparr>ctl := C_Stop_Clear1\<rparr>" by (simp add: ctrl_step_def)
  with mu_ctrl [of "ctrl_step s" s] c show ?thesis by (simp add: crank_def)
next
  case True
  from pi c have i0: "0 \<le> i" and n: "n = int (length (threads s))"
    and lf: "length (flags s) = length (threads s)"
    and ok: "\<forall>j < length (threads s). slot_ok s j"
    by (simp_all add: pool_inv_def)
  from True i0 n ok have "slot_ok s (nat i)" by simp
  then obtain a where fa: "flags s ! nat i = Some a" by (auto simp: slot_ok_def)
  from True i0 n lf fa have "set_flag i s = Inr (s\<lparr>heap := (heap s)[a := True]\<rparr>)"
    by (simp add: set_flag_def)
  with True c have "ctrl_step s = s\<lparr>heap := (heap s)[a := True], ctl := C_Stop_Flags (i + 1) n\<rparr>"
    by (simp add: ctrl_step_def)
  with mu_ctrl [of "ctrl_step s" s] c True show ?thesis by (simp add: crank_def)
qed

lemma join_progress:
  assumes cf: "can_finish s" and c: "ctl s = C_Stop_Join i"
  shows "\<exists>e. internal e \<and> mu (step e s) < mu s"
proof (cases "i < int (length (threads s))")
  case False
  with c have "ctrl_step s = s\<lparr>ctl := C_Stop_Clear2\<rparr>" by (simp add: ctrl_step_def)
  with mu_ctrl [of "ctrl_step s" s] c have "mu (step Ctrl s) < mu s"
    by (simp add: crank_def step_def)
  then show ?thesis by (intro exI [of _ Ctrl]) simp
next
  case True
  from cf have pi: "pool_inv s" and tk: "tasks_ok s"
    and go: "isDone s \<or> (\<exists>F. stop_inv F s (ctl s))" by (simp_all add: can_finish_def)
  from pi c have i0: "0 \<le> i" and ok: "\<forall>j < length (threads s). slot_ok s j"
    and lf: "length (flags s) = length (threads s)"
    by (simp_all add: pool_inv_def)
  from True i0 ok have "slot_ok s (nat i)" by simp
  with c i0 obtain t a where ti: "threads s ! nat i = Some (t, Joinable)"
    and fa: "flags s ! nat i = Some a"
    and tl: "t < length (workers s)" and wf: "w_flag (workers s ! t) = a"
    by (auto simp: slot_ok_def)
  show ?thesis
  proof (cases "w_pc (workers s ! t) = W_Retired")
    case ret: True
    with True i0 c ti tl have "ctrl_step s =
        s\<lparr>threads := (threads s)[nat i := Some (t, Joined)], ctl := C_Stop_Join (i + 1)\<rparr>"
      by (simp add: ctrl_step_def)
    with mu_ctrl [of "ctrl_step s" s] c True i0 have "mu (step Ctrl s) < mu s"
      by (simp add: crank_def step_def nat_add_distrib)
    then show ?thesis by (intro exI [of _ Ctrl]) simp
  next
    case False
    from go have "isDone s \<or> flag_val (heap s) (w_flag (workers s ! t))"
    proof
      assume "isDone s" then show ?thesis by simp
    next
      assume "\<exists>F. stop_inv F s (ctl s)"
      with c obtain F where F: "flags s = F" and fs: "flags_set F (length F) s" by auto
      from True i0 lf F have "nat i < length F" by auto
      with fs have "\<exists>b. F ! nat i = Some b \<and> flag_val (heap s) b"
        by (simp add: flags_set_def)
      with F fa wf show ?thesis by auto
    qed
    from worker_progress [OF tl tasks_ok_nth [OF tk tl] False this]
    have "mu (step (Work t) s) < mu s" by (simp add: step_def)
    then show ?thesis by (intro exI [of _ "Work t"]) simp
  qed
qed

lemma progress:
  assumes cf: "can_finish s" and ni: "ctl s \<noteq> C_Idle"
  shows "\<exists>e. internal e \<and> mu (step e s) < mu s"
proof (cases "ctl s")
  case C_Idle
  with ni show ?thesis by simp
next
  case (C_Stop_Flags i n)
  from cf have "pool_inv s" by (simp add: can_finish_def)
  from flags_progress [OF this C_Stop_Flags] have "mu (step Ctrl s) < mu s"
    by (simp add: step_def)
  then show ?thesis by (intro exI [of _ Ctrl]) simp
next
  case C_Stop_Clear1
  with clear_progress [of s] have "mu (step Ctrl s) < mu s" by (simp add: step_def)
  then show ?thesis by (intro exI [of _ Ctrl]) simp
next
  case C_Stop_Notify
  then have "ctrl_step s = s\<lparr>ctl := C_Stop_Join 0\<rparr>" by (simp add: ctrl_step_def)
  with mu_ctrl [of "ctrl_step s" s] C_Stop_Notify have "mu (step Ctrl s) < mu s"
    by (simp add: crank_def step_def)
  then show ?thesis by (intro exI [of _ Ctrl]) simp
next
  case (C_Stop_Join i)
  from join_progress [OF cf this] show ?thesis .
next
  case C_Stop_Clear2
  with clear_progress [of s] have "mu (step Ctrl s) < mu s" by (simp add: step_def)
  then show ?thesis by (intro exI [of _ Ctrl]) simp
next
  case C_Stop_Free
  from cf have pi: "pool_inv s" by (simp add: can_finish_def)
  from pool_inv_free_step [OF pi C_Stop_Free] have "ctl (ctrl_step s) \<noteq> C_Fault Terminate"
    by (rule pool_inv_no_fault)
  with C_Stop_Free have "ctrl_step s = s\<lparr>threads := [], flags := [], ctl := C_Idle\<rparr>"
    by (auto simp: ctrl_step_def split: if_splits)
  with mu_ctrl [of "ctrl_step s" s] C_Stop_Free have "mu (step Ctrl s) < mu s"
    by (simp add: crank_def step_def)
  then show ?thesis by (intro exI [of _ Ctrl]) simp
next
  case (C_Fault e)
  with cf show ?thesis by (simp add: can_finish_def pool_inv_def)
qed

lemma can_finish_step:
  assumes cf: "can_finish s" and i: "internal e"
  shows "can_finish (step e s)"
proof -
  from cf have pi: "pool_inv s" and tk: "tasks_ok s"
    and go: "isDone s \<or> (\<exists>F. stop_inv F s (ctl s))" by (simp_all add: can_finish_def)
  from i have adm: "admissible e" by (cases e) simp_all
  from go have "isDone (step e s) \<or> (\<exists>F. stop_inv F (step e s) (ctl (step e s)))"
  proof
    assume "isDone s"
    with step_keeps_stop [of s e] show ?thesis by simp
  next
    assume "\<exists>F. stop_inv F s (ctl s)"
    then obtain F where f: "stop_inv F s (ctl s)" by blast
    from i f pi have "stop_inv F (step e s) (ctl (step e s))"
      by (cases e) (simp_all add: step_def stop_inv_worker_step stop_inv_ctrl_step)
    then show ?thesis by blast
  qed
  with pool_inv_step [OF pi adm] tasks_ok_step [OF tk] show ?thesis
    by (simp add: can_finish_def)
qed

lemma can_finish_returns:
  "can_finish s \<Longrightarrow> \<exists>es. list_all internal es \<and> ctl (run es s) = C_Idle"
proof (induction "mu s" arbitrary: s rule: less_induct)
  case less
  show ?case
  proof (cases "ctl s = C_Idle")
    case True
    then have "list_all internal [] \<and> ctl (run [] s) = C_Idle" by simp
    then show ?thesis by blast
  next
    case False
    from progress [OF less.prems False] obtain e where
      i: "internal e" and m: "mu (step e s) < mu s" by blast
    from less.hyps [OF m can_finish_step [OF less.prems i]] obtain es where
      "list_all internal es" "ctl (run es (step e s)) = C_Idle" by blast
    with i have "list_all internal (e # es) \<and> ctl (run (e # es) s) = C_Idle" by simp
    then show ?thesis by blast
  qed
qed

lemma stop_returns:
  assumes r: "reachable p" and idle: "ctl p = C_Idle"
  shows "\<exists>es. list_all internal es \<and> ctl (stop w es p) = C_Idle"
proof (cases "ctl (stop_call w p) = C_Idle")
  case True
  then have "list_all internal [] \<and> ctl (stop w [] p) = C_Idle" by (simp add: stop_def)
  then show ?thesis by blast
next
  case False
  note pi = reachable_pool_inv [OF r]
  have "tasks_ok (stop_call w p) = tasks_ok p"
    by (rule tasks_ok_cong) (simp_all add: stop_call_def)
  with reachable_tasks_ok [OF r] have tk: "tasks_ok (stop_call w p)" by simp
  from pi have lf: "length (flags p) = length (threads p)" by (simp add: pool_inv_def)
  have "isDone (stop_call w p) \<or> (\<exists>F. stop_inv F (stop_call w p) (ctl (stop_call w p)))"
  proof (cases w)
    case True
    with False idle show ?thesis by (auto simp: stop_call_def split: if_splits)
  next
    case nw: False
    with False idle have "\<not> isStop p" by (auto simp: stop_call_def)
    with nw lf have "stop_inv (flags p) (stop_call w p) (ctl (stop_call w p))"
      by (simp add: stop_call_def size_pool_def flags_set_def)
    then show ?thesis by blast
  qed
  with pool_inv_stop_call [OF pi idle] tk have "can_finish (stop_call w p)"
    by (simp add: can_finish_def)
  from can_finish_returns [OF this] show ?thesis by (simp add: stop_def)
qed


section \<open>Which tasks stop(false) deletes\<close>










section \<open>The results of stop(false) and of the destructor\<close>




text \<open>
  Claim C3, as the code has it. The destructor is \<^verbatim>\<open>stop(true)\<close>. Take a state a pool
  can reach, outside a call of \<^verbatim>\<open>stop\<close>, running (neither stopped nor draining), in
  which every thread that \<^verbatim>\<open>resize\<close> has detached has returned. There is a schedule
  of the pool's threads under which the destructor returns; and under every schedule
  \<open>es\<close> of the pool's threads under which it has returned, the queue
  and the vector of threads are empty and every worker has returned. If the pool had a
  worker in its vector, the calls made are, counted with multiplicity, those made before
  and one for every task pointer that was queued or in a worker's hands, and
  \<^verbatim>\<open>clear_queue\<close> deleted nothing: every queued task was run. If the pool had no worker
  in its vector, no call was made and the queued task pointers were deleted by
  \<^verbatim>\<open>clear_queue\<close> (line 331): they were not run.
\<close>

theorem dtor_runs_queued_tasks:
  assumes r: "reachable p" and idle: "ctl p = C_Idle"
    and rn: "\<not> isStop p" "\<not> isDone p"
    and um: "\<forall>t < length (workers p). Some t \<notin> set (tids p) \<longrightarrow> w_pc (workers p ! t) = W_Retired"
  shows "(\<exists>es. list_all internal es \<and> ctl (thread_pool_dtor es p) = C_Idle)
     \<and> (\<forall>es. list_all internal es \<and> ctl (thread_pool_dtor es p) = C_Idle \<longrightarrow>
          thread_pool_dtor es p = stop True es p
        \<and> q (thread_pool_dtor es p) = []
        \<and> threads (thread_pool_dtor es p) = []
        \<and> (\<forall>t < length (workers (thread_pool_dtor es p)).
              w_pc (workers (thread_pool_dtor es p) ! t) = W_Retired)
        \<and> (threads p \<noteq> [] \<longrightarrow>
              called (thread_pool_dtor es p)
                = called p + mset (q p) + sum_list (map held (workers p))
            \<and> discarded (thread_pool_dtor es p) = discarded p)
        \<and> (threads p = [] \<longrightarrow>
              executed (thread_pool_dtor es p) = executed p
            \<and> mset (discarded (thread_pool_dtor es p)) = mset (discarded p) + mset (q p)))"
  apply (rule conjI)
   apply (unfold thread_pool_dtor_def) [1]
   apply (rule stop_returns [OF r idle])
  apply (intro allI impI)
  apply (erule conjE)
  apply (rule dtor_facts [OF r idle rn um])
   apply assumption+
  done

theorem dtor_runs_queued_tasks_witness:
  "reachable (run [Resize 3, Resize 2, Work 2, Work 2, Work 2, Push 7, Push 8, Push 9]
       thread_pool_init)
   \<and> ctl (run [Resize 3, Resize 2, Work 2, Work 2, Work 2, Push 7, Push 8, Push 9]
       thread_pool_init) = C_Idle
   \<and> threads (run [Resize 3, Resize 2, Work 2, Work 2, Work 2, Push 7, Push 8, Push 9]
       thread_pool_init) = [Some (0, Joinable), Some (1, Joinable)]
   \<and> q (run [Resize 3, Resize 2, Work 2, Work 2, Work 2, Push 7, Push 8, Push 9]
       thread_pool_init) = [Some 7, Some 8, Some 9]
   \<and> ctl (thread_pool_dtor (concat (replicate 14 [Ctrl, Work 0, Work 1]))
        (run [Resize 3, Resize 2, Work 2, Work 2, Work 2, Push 7, Push 8, Push 9]
           thread_pool_init)) = C_Idle
   \<and> called (thread_pool_dtor (concat (replicate 14 [Ctrl, Work 0, Work 1]))
        (run [Resize 3, Resize 2, Work 2, Work 2, Work 2, Push 7, Push 8, Push 9]
           thread_pool_init)) = {#Some 7, Some 8, Some 9#}
   \<and> discarded (thread_pool_dtor (concat (replicate 14 [Ctrl, Work 0, Work 1]))
        (run [Resize 3, Resize 2, Work 2, Work 2, Work 2, Push 7, Push 8, Push 9]
           thread_pool_init)) = []"
proof -
  let ?P = "run [Resize 3, Resize 2, Work 2, Work 2, Work 2, Push 7, Push 8, Push 9]
              thread_pool_init"
  let ?ES = "concat (replicate 14 [Ctrl, Work 0, Work 1])"
  have r: "reachable ?P"
    by (rule reachable_run [OF reachable_init]) simp
  have c: "ctl ?P = C_Idle" by code_simp
  have n: "\<not> isStop ?P" "\<not> isDone ?P" by code_simp+
  have th: "threads ?P = [Some (0, Joinable), Some (1, Joinable)]" by code_simp
  have qq: "q ?P = [Some 7, Some 8, Some 9]" by code_simp
  have lw: "length (workers ?P) = 3" by code_simp
  have w2: "w_pc (workers ?P ! 2) = W_Retired" by code_simp
  have hd: "sum_list (map held (workers ?P)) = {#}" by code_simp
  have ex: "executed ?P = []" by code_simp
  have di: "discarded ?P = []" by code_simp
  from th have td: "tids ?P = [Some 0, Some 1]" by (simp add: tids_def)
  have um: "\<forall>t < length (workers ?P). Some t \<notin> set (tids ?P) \<longrightarrow>
              w_pc (workers ?P ! t) = W_Retired"
  proof (intro allI impI)
    fix t assume "t < length (workers ?P)" "Some t \<notin> set (tids ?P)"
    with lw td have "t = 2" by auto
    with w2 show "w_pc (workers ?P ! t) = W_Retired" by simp
  qed
  have i: "list_all internal ?ES" by code_simp
  have f: "ctl (thread_pool_dtor ?ES ?P) = C_Idle" by code_simp
  from th have ne: "threads ?P \<noteq> []" by simp
  from dtor_runs_queued_tasks [OF r c n um, THEN conjunct2, rule_format, OF conjI [OF i f]] ne
  have "called (thread_pool_dtor ?ES ?P) = called ?P + mset (q ?P) + sum_list (map held (workers ?P))"
    and "discarded (thread_pool_dtor ?ES ?P) = discarded ?P"
    by blast+
  with qq hd ex di have "called (thread_pool_dtor ?ES ?P) = {#Some 7, Some 8, Some 9#}"
    and "discarded (thread_pool_dtor ?ES ?P) = []"
    by (simp_all add: called_def)
  with r c th qq f show ?thesis by blast
qed

text \<open>
  Claim C3 as stated fails: a pool without workers that holds one queued task is
  destroyed, the destructor returns, and the task was deleted and never called.
\<close>

theorem dtor_discards_counterexample:
  "q (run [Push 7] thread_pool_init) = [Some 7]
   \<and> ctl (thread_pool_dtor [Ctrl, Ctrl, Ctrl, Ctrl, Ctrl] (run [Push 7] thread_pool_init)) = C_Idle
   \<and> executed (thread_pool_dtor [Ctrl, Ctrl, Ctrl, Ctrl, Ctrl] (run [Push 7] thread_pool_init)) = []
   \<and> discarded (thread_pool_dtor [Ctrl, Ctrl, Ctrl, Ctrl, Ctrl] (run [Push 7] thread_pool_init))
        = [Some 7]"
  by code_simp

text \<open>
  The hypothesis on detached threads is needed: worker 1, detached by \<^verbatim>\<open>resize(1)\<close>
  before its first pop, takes task 7 and has not called it when the destructor, which
  joins worker 0 only, returns.
\<close>

lemma dtor_detached_worker_example:
  "ctl (thread_pool_dtor (Work 1 # concat (replicate 12 [Ctrl, Work 0]))
          (run [Resize 2, Push 7, Push 8, Resize 1] thread_pool_init)) = C_Idle
   \<and> executed (thread_pool_dtor (Work 1 # concat (replicate 12 [Ctrl, Work 0]))
          (run [Resize 2, Push 7, Push 8, Resize 1] thread_pool_init)) = [(0, 0, 8)]
   \<and> w_pc (workers (thread_pool_dtor (Work 1 # concat (replicate 12 [Ctrl, Work 0]))
          (run [Resize 2, Push 7, Push 8, Resize 1] thread_pool_init)) ! 1) = W_Exec
   \<and> w_f (workers (thread_pool_dtor (Work 1 # concat (replicate 12 [Ctrl, Work 0]))
          (run [Resize 2, Push 7, Push 8, Resize 1] thread_pool_init)) ! 1) = Some 7"
  by code_simp

end
